theory Spec2Isabelle
  imports Main "HOL-Library.Char_ord" "HOL-Library.Multiset"
begin

section \<open>Text and characters\<close>

text \<open>
  A source text is a \<^typ>\<open>string\<close>; a character is one 8-bit code unit. The scanners
  and the parser only ever compare characters with ASCII characters. The few glyphs beyond
  that range which the inline renderer writes (middle dot, fraction slash, capital sigma,
  superscript digits) are spelled as their UTF-8 bytes.

  Reading \<open>text[i]\<close> past the end of a JavaScript string gives \<open>undefined\<close>: here
  \<open>charAt\<close> gives \<open>None\<close>, and a test \<open>/re/.test(text[i] ?? '')\<close> on it is
  \<open>testOpt\<close>, false on \<open>None\<close>.
\<close>

definition charAt :: "string \<Rightarrow> nat \<Rightarrow> char option" where
  "charAt text i = (if i < length text then Some (text ! i) else None)"

definition testOpt :: "(char \<Rightarrow> bool) \<Rightarrow> char option \<Rightarrow> bool" where
  "testOpt P c = (case c of None \<Rightarrow> False | Some ch \<Rightarrow> P ch)"

definition slice :: "string \<Rightarrow> nat \<Rightarrow> nat \<Rightarrow> string" where
  \<comment> \<open>\<open>text.slice(a, b)\<close> for non-negative \<open>a\<close>, \<open>b\<close>: empty when \<open>b \<le> a\<close>.\<close>
  "slice text a b = drop a (take b text)"

definition startsWith :: "string \<Rightarrow> string \<Rightarrow> nat \<Rightarrow> bool" where
  \<comment> \<open>\<open>text.startsWith(s, i)\<close>\<close>
  "startsWith text s i \<longleftrightarrow> slice text i (i + length s) = s"

definition blank :: char where
  "blank = CHR '' ''"

definition backslash :: char where
  "backslash = CHR 0x5C"

text \<open>The character classes of the regular expressions: \<open>\w\<close>, \<open>[A-Za-z_]\<close>, \<open>\d\<close>, \<open>\s\<close>.\<close>

definition isWordChar :: "char \<Rightarrow> bool" where
  "isWordChar ch \<longleftrightarrow>
     (CHR ''A'' \<le> ch \<and> ch \<le> CHR ''Z'') \<or> (CHR ''a'' \<le> ch \<and> ch \<le> CHR ''z'') \<or>
     (CHR ''0'' \<le> ch \<and> ch \<le> CHR ''9'') \<or> ch = CHR ''_''"

definition isIdentStart :: "char \<Rightarrow> bool" where
  "isIdentStart ch \<longleftrightarrow>
     (CHR ''A'' \<le> ch \<and> ch \<le> CHR ''Z'') \<or> (CHR ''a'' \<le> ch \<and> ch \<le> CHR ''z'') \<or> ch = CHR ''_''"

definition isIdentPart :: "char \<Rightarrow> bool" where
  "isIdentPart ch \<longleftrightarrow>
     (CHR ''A'' \<le> ch \<and> ch \<le> CHR ''Z'') \<or> (CHR ''a'' \<le> ch \<and> ch \<le> CHR ''z'') \<or>
     (CHR ''0'' \<le> ch \<and> ch \<le> CHR ''9'') \<or> ch = CHR ''_''"

definition isIdentChar :: "char \<Rightarrow> bool" where
  "isIdentChar ch \<longleftrightarrow>
     (CHR ''A'' \<le> ch \<and> ch \<le> CHR ''Z'') \<or> (CHR ''a'' \<le> ch \<and> ch \<le> CHR ''z'') \<or>
     (CHR ''0'' \<le> ch \<and> ch \<le> CHR ''9'') \<or> ch = CHR ''_''"

definition isDigit :: "char \<Rightarrow> bool" where
  "isDigit ch \<longleftrightarrow> CHR ''0'' \<le> ch \<and> ch \<le> CHR ''9''"

definition isSpace :: "char \<Rightarrow> bool" where
  \<comment> \<open>tab, line feed, vertical tab, form feed, carriage return, space, no-break space\<close>
  "isSpace ch \<longleftrightarrow>
     (CHR 0x09 \<le> ch \<and> ch \<le> CHR 0x0D) \<or> ch = CHR '' '' \<or> ch = CHR 0xA0"

definition trim :: "string \<Rightarrow> string" where
  "trim s = rev (dropWhile isSpace (rev (dropWhile isSpace s)))"

function skipWs :: "string \<Rightarrow> nat \<Rightarrow> nat" where
  "skipWs text i = (if i < length text \<and> isSpace (text ! i) then skipWs text (i + 1) else i)"
  by pat_completeness auto
termination
  by (relation "measure (\<lambda>(text, i). length text - i)") auto

declare skipWs.simps [simp del]

section \<open>The masker (scan.ts)\<close>

datatype ScanState = normal | lineComment | blockComment | stringLit | charLit | textBlock

definition isNewline :: "char \<Rightarrow> bool" where
  "isNewline ch \<longleftrightarrow> ch = CHR 0x0A \<or> ch = CHR 0x0D"

text \<open>
  \<open>out\<close> is \<open>new Array(text.length)\<close>: every slot starts as a hole (\<open>None\<close>).
  An assignment \<open>out[i] = c\<close> past the end of a JavaScript array extends it, which
  \<open>setAt\<close> writes out; \<open>joinOut\<close> is \<open>out.join('')\<close>, where a hole contributes
  nothing.
\<close>

definition setAt :: "char option list \<Rightarrow> nat \<Rightarrow> char \<Rightarrow> char option list" where
  "setAt out i c =
     (if i < length out then out[i := Some c]
      else out @ replicate (i - length out) None @ [Some c])"

definition joinOut :: "char option list \<Rightarrow> string" where
  "joinOut out = concat (map (\<lambda>slot. case slot of None \<Rightarrow> [] | Some c \<Rightarrow> [c]) out)"

text \<open>
  The body of the \<open>for\<close> loop of \<open>maskJavaNonCode\<close>, one call per iteration: \<open>i\<close>,
  \<open>state\<close>, \<open>escape\<close> and \<open>out\<close> are the loop's variables, and the next call is
  made at the value \<open>i\<close> has after the loop's own \<open>i++\<close>.
\<close>

function maskLoop :: "string \<Rightarrow> nat \<Rightarrow> ScanState \<Rightarrow> bool \<Rightarrow> char option list \<Rightarrow> char option list" where
  "maskLoop text i state escape out =
     (if \<not> i < length text then out
      else
        let ch = text ! i; next = charAt text (i + 1); next2 = charAt text (i + 2) in
        case state of
          normal \<Rightarrow>
            if ch = CHR ''/'' \<and> next = Some CHR ''/'' then
              maskLoop text (i + 2) lineComment escape (setAt (setAt out i blank) (i + 1) blank)
            else if ch = CHR ''/'' \<and> next = Some CHR ''*'' then
              maskLoop text (i + 2) blockComment escape (setAt (setAt out i blank) (i + 1) blank)
            else if ch = CHR 0x22 then
              (if next = Some CHR 0x22 \<and> next2 = Some CHR 0x22 then
                 maskLoop text (i + 3) textBlock escape
                   (setAt (setAt (setAt out i blank) (i + 1) blank) (i + 2) blank)
               else maskLoop text (i + 1) stringLit False (setAt out i blank))
            else if ch = CHR 0x27 then
              maskLoop text (i + 1) charLit False (setAt out i blank)
            else maskLoop text (i + 1) normal escape (setAt out i ch)
        | lineComment \<Rightarrow>
            if isNewline ch then maskLoop text (i + 1) normal escape (setAt out i ch)
            else maskLoop text (i + 1) lineComment escape (setAt out i blank)
        | blockComment \<Rightarrow>
            if ch = CHR ''*'' \<and> next = Some CHR ''/'' then
              maskLoop text (i + 2) normal escape (setAt (setAt out i blank) (i + 1) blank)
            else
              maskLoop text (i + 1) blockComment escape
                (setAt out i (if isNewline ch then ch else blank))
        | stringLit \<Rightarrow>
            if isNewline ch then maskLoop text (i + 1) normal False (setAt out i ch)
            else if escape then maskLoop text (i + 1) stringLit False (setAt out i blank)
            else if ch = CHR 0x5C then maskLoop text (i + 1) stringLit True (setAt out i blank)
            else if ch = CHR 0x22 then maskLoop text (i + 1) normal escape (setAt out i blank)
            else maskLoop text (i + 1) stringLit escape (setAt out i blank)
        | charLit \<Rightarrow>
            if isNewline ch then maskLoop text (i + 1) normal False (setAt out i ch)
            else if escape then maskLoop text (i + 1) charLit False (setAt out i blank)
            else if ch = CHR 0x5C then maskLoop text (i + 1) charLit True (setAt out i blank)
            else if ch = CHR 0x27 then maskLoop text (i + 1) normal escape (setAt out i blank)
            else maskLoop text (i + 1) charLit escape (setAt out i blank)
        | textBlock \<Rightarrow>
            if ch = CHR 0x22 \<and> next = Some CHR 0x22 \<and> next2 = Some CHR 0x22 then
              maskLoop text (i + 3) normal escape
                (setAt (setAt (setAt out i blank) (i + 1) blank) (i + 2) blank)
            else
              maskLoop text (i + 1) textBlock escape
                (setAt out i (if isNewline ch then ch else blank)))"
  by pat_completeness auto
termination
  by (relation "measure (\<lambda>(text, i, state, escape, out). length text - i)") auto

declare maskLoop.simps [simp del]

definition maskJavaNonCode :: "string \<Rightarrow> string" where
  "maskJavaNonCode text =
     joinOut (maskLoop text 0 normal False (replicate (length text) None))"

section \<open>Regular expressions\<close>

text \<open>
  The detectors use JavaScript regular expressions. A regular expression is a value of
  \<open>regex\<close>, and \<open>rmatch\<close> is the backtracking matcher: started in a state (the
  character preceding the position, the unread rest, the captures so far) it returns every
  state a match can end in, in the order in which backtracking tries them, so the head of
  the list is the match JavaScript reports. Alternatives are tried left to right, \<open>?\<close>
  and \<open>*\<close> are greedy, and an iteration of \<open>*\<close> that consumes nothing is not
  repeated. \<open>WordB\<close> is \<open>\b\<close>, \<open>Bol\<close> and \<open>Eol\<close> are \<open>^\<close> and \<open>$\<close>
  (without the multiline meaning, which no expression here relies on), \<open>Cap n\<close> is the
  \<open>n\<close>-th capturing group and \<open>BackRef n\<close> is \<open>\n\<close>.
\<close>

datatype regex =
    Lit string
  | Class "char \<Rightarrow> bool"
  | Seq regex regex
  | Alt regex regex
  | Opt regex
  | Star regex
  | Cap nat regex
  | BackRef nat
  | WordB
  | Bol
  | Eol

record mstate =
  preceding :: "char option"
  unread :: string
  captures :: "(nat \<times> string) list"

definition lastOpt :: "char option \<Rightarrow> string \<Rightarrow> char option" where
  "lastOpt p s = (if s = [] then p else Some (last s))"

definition consume :: "string \<Rightarrow> mstate \<Rightarrow> mstate list" where
  "consume s st =
     (if take (length s) (unread st) = s
      then [st\<lparr>preceding := lastOpt (preceding st) s, unread := drop (length s) (unread st)\<rparr>]
      else [])"

function (sequential) rmatch :: "regex \<Rightarrow> mstate \<Rightarrow> mstate list" where
  "rmatch (Lit s) st = consume s st"
| "rmatch (Class P) st =
     (case unread st of
        [] \<Rightarrow> []
      | c # cs \<Rightarrow> if P c then [st\<lparr>preceding := Some c, unread := cs\<rparr>] else [])"
| "rmatch (Seq a b) st = concat (map (rmatch b) (rmatch a st))"
| "rmatch (Alt a b) st = rmatch a st @ rmatch b st"
| "rmatch (Opt r) st = rmatch r st @ [st]"
| "rmatch (Star r) st =
     concat (map (\<lambda>st'. if length (unread st') < length (unread st) then rmatch (Star r) st' else [])
               (rmatch r st)) @ [st]"
| "rmatch (Cap n r) st =
     map (\<lambda>st'. st'\<lparr>captures := (n, take (length (unread st) - length (unread st')) (unread st)) # captures st'\<rparr>)
       (rmatch r st)"
| "rmatch (BackRef n) st =
     (case map_of (captures st) n of None \<Rightarrow> [st] | Some s \<Rightarrow> consume s st)"
| "rmatch WordB st =
     (if testOpt isWordChar (preceding st) \<noteq>
         testOpt isWordChar (case unread st of [] \<Rightarrow> None | c # _ \<Rightarrow> Some c)
      then [st] else [])"
| "rmatch Bol st = (if preceding st = None then [st] else [])"
| "rmatch Eol st = (if unread st = [] then [st] else [])"
  by pat_completeness auto
termination
  by (relation "inv_image (less_than <*lex*> less_than) (\<lambda>(r, st). (size r, length (unread st)))") auto

definition Plus :: "regex \<Rightarrow> regex" where
  "Plus r = Seq r (Star r)"

text \<open>
  \<open>regexExec r input lastIndex\<close> is \<open>r.exec(input)\<close> for an expression whose
  \<open>lastIndex\<close> is the given one (0 for an expression without the \<open>g\<close> flag): the
  leftmost position from \<open>lastIndex\<close> on at which the expression matches, with the match
  backtracking finds first there. \<open>matchEnd\<close> is the \<open>lastIndex\<close> that a \<open>g\<close>
  expression has after the match.
\<close>

record RegExpMatch =
  matchIndex :: nat
  matchEnd :: nat
  matchGroup :: "nat \<Rightarrow> string option"

fun execFrom :: "regex \<Rightarrow> string \<Rightarrow> char option \<Rightarrow> nat \<Rightarrow> string \<Rightarrow> RegExpMatch option" where
  "execFrom r input p i s =
     (case rmatch r \<lparr>preceding = p, unread = s, captures = []\<rparr> of
        st # _ \<Rightarrow>
          Some \<lparr>matchIndex = i, matchEnd = length input - length (unread st),
                matchGroup = map_of (captures st)\<rparr>
      | [] \<Rightarrow> (case s of [] \<Rightarrow> None | c # cs \<Rightarrow> execFrom r input (Some c) (i + 1) cs))"

definition regexExec :: "regex \<Rightarrow> string \<Rightarrow> nat \<Rightarrow> RegExpMatch option" where
  "regexExec r input lastIndex =
     (if length input < lastIndex then None
      else execFrom r input (if lastIndex = 0 then None else Some (input ! (lastIndex - 1)))
             lastIndex (drop lastIndex input))"


definition seqs :: "regex list \<Rightarrow> regex" where
  \<comment> \<open>the concatenation of the expressions, left to right\<close>
  "seqs rs = foldr Seq rs (Lit [])"

definition alts :: "regex list \<Rightarrow> regex" where
  \<comment> \<open>\<open>r1|r2|...\<close> for a non-empty list\<close>
  "alts rs = foldr Alt (butlast rs) (last rs)"

definition wsStar :: regex where
  \<comment> \<open>\<open>\s*\<close>\<close>
  "wsStar = Star (Class isSpace)"

definition identRe :: regex where
  \<comment> \<open>\<open>[A-Za-z_]\w*\<close>\<close>
  "identRe = Seq (Class isIdentStart) (Star (Class isWordChar))"

definition notSemicolon :: "char \<Rightarrow> bool" where
  \<comment> \<open>\<open>[^;]\<close>\<close>
  "notSemicolon c \<longleftrightarrow> c \<noteq> CHR '';''"

definition grp :: "RegExpMatch \<Rightarrow> nat \<Rightarrow> string" where
  \<comment> \<open>\<open>m[n]!\<close>: in every expression below the groups read take part in each match\<close>
  "grp m n = (case matchGroup m n of None \<Rightarrow> [] | Some s \<Rightarrow> s)"

definition regexTest :: "regex \<Rightarrow> string \<Rightarrow> bool" where
  "regexTest r input \<longleftrightarrow> regexExec r input 0 \<noteq> None"

section \<open>Expressions and the parser (scan.ts, expression part)\<close>

datatype Bracket = Paren | Brace
datatype UnaryOp = UPlus | UMinus
datatype BinaryOp = Add | Sub | Mul | Div

datatype Expr =
    Number string
  | Ident string
  | Raw string
  | Group Bracket Expr
  | Unary UnaryOp Expr
  | Binary BinaryOp Expr Expr
  | Member Expr string
  | Index Expr Expr
  | Call Expr "Expr list"
  | New Expr "Expr list"

text \<open>
  \<open>skipWhile P text j\<close> is the loop \<open>while (j < text.length && P(text[j])) j++\<close>.
  \<open>qualifiedLoop\<close> is the loop of \<open>parseQualifiedIdent\<close> over the dotted segments.
\<close>

function skipWhile :: "(char \<Rightarrow> bool) \<Rightarrow> string \<Rightarrow> nat \<Rightarrow> nat" where
  "skipWhile P text j = (if j < length text \<and> P (text ! j) then skipWhile P text (j + 1) else j)"
  by pat_completeness auto
termination
  by (relation "measure (\<lambda>(P, text, j). length text - j)") auto

declare skipWhile.simps [simp del]

lemma skipWs_ge: "i \<le> skipWs t i"
  by (induction t i rule: skipWs.induct) (subst skipWs.simps, auto)

lemma skipWhile_ge: "j \<le> skipWhile P t j"
  by (induction P t j rule: skipWhile.induct) (subst skipWhile.simps, auto)

function qualifiedLoop :: "string \<Rightarrow> string \<Rightarrow> nat \<Rightarrow> string \<times> nat" where
  "qualifiedLoop text name j =
     (let j0 = skipWs text j in
      if charAt text j0 \<noteq> Some CHR ''.'' then (name, j)
      else
        let j1 = skipWs text (j0 + 1) in
        if \<not> testOpt isIdentStart (charAt text j1) then (name, j)
        else
          let j2 = skipWhile isIdentPart text j1 in
          qualifiedLoop text (name @ ''.'' @ slice text j1 j2) j2)"
  by pat_completeness auto
termination
proof (relation "measure (\<lambda>(text, name, j). length text - j)", goal_cases)
  case 1
  show ?case by simp
next
  case (2 t name j j0 j1 j2)
  have "j \<le> j0" using 2 by (simp add: skipWs_ge)
  moreover have "j0 + 1 \<le> j1" using 2 by (simp add: skipWs_ge)
  moreover have "j1 \<le> j2" using 2 by (simp add: skipWhile_ge)
  moreover have "j1 < length t" using 2 by (auto simp: testOpt_def charAt_def split: option.splits if_splits)
  ultimately show ?case by simp
qed

declare qualifiedLoop.simps [simp del]

definition parseQualifiedIdent :: "string \<Rightarrow> nat \<Rightarrow> (string \<times> nat) option" where
  "parseQualifiedIdent text i =
     (if \<not> testOpt isIdentStart (charAt text i) then None
      else
        let j = skipWhile isIdentPart text i in
        Some (qualifiedLoop text (slice text i j) j))"

definition parseNumber :: "string \<Rightarrow> nat \<Rightarrow> (string \<times> nat) option" where
  "parseNumber text i =
     (if \<not> testOpt isDigit (charAt text i) then None
      else
        let j = skipWhile isDigit text i;
            j' = (if charAt text j = Some CHR ''.'' \<and> testOpt isDigit (charAt text (j + 1))
                  then skipWhile isDigit text (j + 1) else j)
        in Some (slice text i j', j'))"

function findMatchingLoop :: "string \<Rightarrow> char \<Rightarrow> char \<Rightarrow> nat \<Rightarrow> int \<Rightarrow> nat option" where
  "findMatchingLoop text openCh closeCh i depth =
     (if \<not> i < length text then None
      else
        let ch = text ! i in
        if ch = openCh then findMatchingLoop text openCh closeCh (i + 1) (depth + 1)
        else if ch = closeCh then
          (if depth - 1 = 0 then Some i
           else findMatchingLoop text openCh closeCh (i + 1) (depth - 1))
        else findMatchingLoop text openCh closeCh (i + 1) depth)"
  by pat_completeness auto
termination
  by (relation "measure (\<lambda>(text, openCh, closeCh, i, depth). length text - i)") auto

declare findMatchingLoop.simps [simp del]

definition findMatching :: "string \<Rightarrow> nat \<Rightarrow> char \<Rightarrow> char \<Rightarrow> nat option" where
  "findMatching text openIndex openCh closeCh = findMatchingLoop text openCh closeCh openIndex 0"

text \<open>
  The local variables of \<open>splitArgsText\<close>. \<open>Math.max(0, d - 1)\<close> is the
  subtraction of natural numbers.
\<close>

record splitState =
  sa_args :: "string list"
  sa_start :: nat
  sa_depthParen :: nat
  sa_depthBrace :: nat
  sa_depthBracket :: nat

definition splitArgsStep :: "string \<Rightarrow> nat \<Rightarrow> splitState \<Rightarrow> splitState" where
  "splitArgsStep argsText i s =
     (let ch = (case charAt argsText i of None \<Rightarrow> CHR '','' | Some c \<Rightarrow> c);
          s1 = (if ch = CHR ''('' then s\<lparr>sa_depthParen := sa_depthParen s + 1\<rparr>
                else if ch = CHR '')'' then s\<lparr>sa_depthParen := sa_depthParen s - 1\<rparr>
                else if ch = CHR ''{'' then s\<lparr>sa_depthBrace := sa_depthBrace s + 1\<rparr>
                else if ch = CHR ''}'' then s\<lparr>sa_depthBrace := sa_depthBrace s - 1\<rparr>
                else if ch = CHR ''['' then s\<lparr>sa_depthBracket := sa_depthBracket s + 1\<rparr>
                else if ch = CHR '']'' then s\<lparr>sa_depthBracket := sa_depthBracket s - 1\<rparr>
                else s)
      in
        if (ch = CHR '','' \<and> sa_depthParen s1 = 0 \<and> sa_depthBrace s1 = 0 \<and> sa_depthBracket s1 = 0)
           \<or> i = length argsText
        then
          let part = trim (slice argsText (sa_start s1) i) in
          (if length part > 0 then s1\<lparr>sa_args := sa_args s1 @ [part]\<rparr> else s1)\<lparr>sa_start := i + 1\<rparr>
        else s1)"

function splitArgsLoop :: "string \<Rightarrow> nat \<Rightarrow> splitState \<Rightarrow> string list" where
  "splitArgsLoop argsText i s =
     (if i \<le> length argsText then splitArgsLoop argsText (i + 1) (splitArgsStep argsText i s)
      else sa_args s)"
  by pat_completeness auto
termination
  by (relation "measure (\<lambda>(argsText, i, s). Suc (length argsText) - i)") auto

declare splitArgsLoop.simps [simp del]

definition splitArgsText :: "string \<Rightarrow> string list" where
  "splitArgsText argsText =
     splitArgsLoop argsText 0
       \<lparr>sa_args = [], sa_start = 0, sa_depthParen = 0, sa_depthBrace = 0, sa_depthBracket = 0\<rparr>"

text \<open>
  The operator characters: \<open>addOp\<close> reads \<open>+\<close> or \<open>-\<close> as a binary and as a unary
  operator, \<open>mulOp\<close> reads \<open>*\<close> or \<open>/\<close>.
\<close>

definition addOp :: "char option \<Rightarrow> (BinaryOp \<times> UnaryOp) option" where
  "addOp c = (if c = Some CHR ''+'' then Some (Add, UPlus)
              else if c = Some CHR ''-'' then Some (Sub, UMinus) else None)"

definition mulOp :: "char option \<Rightarrow> BinaryOp option" where
  "mulOp c = (if c = Some CHR ''*'' then Some Mul
              else if c = Some CHR ''/'' then Some Div else None)"

lemma qualifiedLoop_ge: "j \<le> snd (qualifiedLoop t name j)"
proof (induction t name j rule: qualifiedLoop.induct)
  case (1 t name j)
  show ?case
  proof (cases "charAt t (skipWs t j) = Some CHR ''.'' \<and>
                testOpt isIdentStart (charAt t (skipWs t (skipWs t j + 1)))")
    case False
    then show ?thesis by (subst qualifiedLoop.simps) (auto simp: Let_def)
  next
    case True
    let ?j1 = "skipWs t (skipWs t j + 1)"
    let ?j2 = "skipWhile isIdentPart t ?j1"
    have "?j2 \<le> snd (qualifiedLoop t (name @ ''.'' @ slice t ?j1 ?j2) ?j2)"
      using True by (intro "1.IH") auto
    moreover have "j \<le> ?j2"
      using skipWs_ge[of j t] skipWs_ge[of "skipWs t j + 1" t] skipWhile_ge[of ?j1 isIdentPart t]
      by linarith
    ultimately show ?thesis
      using True by (subst qualifiedLoop.simps) (simp add: Let_def)
  qed
qed

lemma parseQualifiedIdent_ge: "parseQualifiedIdent t i = Some (name, e) \<Longrightarrow> i \<le> e"
  unfolding parseQualifiedIdent_def Let_def
  using qualifiedLoop_ge[of "skipWhile isIdentPart t i" t "slice t i (skipWhile isIdentPart t i)"]
    skipWhile_ge[of i isIdentPart t]
  by (auto split: if_splits simp: snd_def split: prod.splits)

lemma parseNumber_ge: "parseNumber t i = Some (v, e) \<Longrightarrow> i \<le> e"
  unfolding parseNumber_def Let_def
  using skipWhile_ge[of i isDigit t] skipWhile_ge[of "skipWhile isDigit t i + 1" isDigit t]
  by (auto split: if_splits)

lemma findMatchingLoop_bounds:
  "findMatchingLoop t oc cc i d = Some k \<Longrightarrow> i \<le> k \<and> k < length t"
proof (induction "length t - i" arbitrary: i d rule: less_induct)
  case less
  have IH: "Suc i \<le> k \<and> k < length t"
    if "i < length t" "findMatchingLoop t oc cc (Suc i) d' = Some k" for d'
    using less.hyps[of "Suc i" d'] that by simp
  from less.prems show ?case
    by (subst (asm) findMatchingLoop.simps) (auto simp: Let_def split: if_splits dest!: IH)
qed

lemma findMatching_bounds:
  "findMatching t i oc cc = Some k \<Longrightarrow> i \<le> k \<and> k < length t"
  unfolding findMatching_def by (rule findMatchingLoop_bounds)

lemma length_trim_le: "length (trim s) \<le> length s"
  unfolding trim_def
  by (metis length_dropWhile_le length_rev le_trans)

lemma length_slice_le: "length (slice t a b) \<le> length t - a"
  by (simp add: slice_def)

lemma splitArgsStep_length:
  assumes "\<forall>p \<in> set (sa_args s). length p \<le> length t"
  shows "\<forall>p \<in> set (sa_args (splitArgsStep t i s)). length p \<le> length t"
proof -
  have part: "length (trim (slice t a b)) \<le> length t" for a b
    using length_trim_le[of "slice t a b"] length_slice_le[of t a b] by linarith
  show ?thesis
    using assms part by (auto simp: splitArgsStep_def Let_def)
qed

lemma splitArgsLoop_length:
  "\<forall>p \<in> set (sa_args s). length p \<le> length t \<Longrightarrow>
   \<forall>p \<in> set (splitArgsLoop t i s). length p \<le> length t"
proof (induction t i s rule: splitArgsLoop.induct)
  case (1 t i s)
  show ?case
  proof (cases "i \<le> length t")
    case False
    then show ?thesis using "1.prems" by (subst splitArgsLoop.simps) simp
  next
    case True
    have "\<forall>p \<in> set (splitArgsLoop t (i + 1) (splitArgsStep t i s)). length p \<le> length t"
      using True "1.prems" by (intro "1.IH" splitArgsStep_length)
    then show ?thesis
      using True by (subst splitArgsLoop.simps) simp
  qed
qed

lemma splitArgsText_length: "p \<in> set (splitArgsText t) \<Longrightarrow> length p \<le> length t"
  using splitArgsLoop_length[of "\<lparr>sa_args = [], sa_start = 0, sa_depthParen = 0, sa_depthBrace = 0, sa_depthBracket = 0\<rparr>" t 0]
  by (simp add: splitArgsText_def)


lemma addOp_Some_less: "addOp (charAt t i) = Some x \<Longrightarrow> i < length t"
  by (auto simp: addOp_def charAt_def split: if_splits)

lemma mulOp_Some_less: "mulOp (charAt t i) = Some x \<Longrightarrow> i < length t"
  by (auto simp: mulOp_def charAt_def split: if_splits)

lemma charAt_Some_less: "charAt t i = Some c \<Longrightarrow> i < length t"
  by (auto simp: charAt_def split: if_splits)

text \<open>
  The parser. It keeps a position \<open>this.i\<close> into a fixed text; every method here takes
  the position and returns the expression with the position after it, or \<open>None\<close> where
  the source returns \<open>undefined\<close> (after which the position is not read again).
  \<open>parseAddLoop\<close> and \<open>parseMulLoop\<close> are the \<open>while (true)\<close> loops of
  \<open>parseAdd\<close> and \<open>parseMul\<close>, and \<open>parsePostfix\<close> is its own loop.
  \<open>parseExpression\<close> is the exported function that parses a whole text. In
  \<open>parsePrimary\<close>, \<open>/\b/.test(c)\<close> on one character holds exactly for a word
  character. The measure below orders the calls for the termination proof.
\<close>

definition parserMeasure ::
  "(((string + string \<times> nat) + (string \<times> Expr \<times> nat) + string \<times> nat) +
    ((string \<times> Expr \<times> nat) + string \<times> nat) + (string \<times> nat) + string \<times> Expr \<times> nat)
   \<Rightarrow> nat \<times> nat \<times> nat" where
  "parserMeasure =
     case_sum
       (case_sum
          (case_sum (\<lambda>t. (length t, length t + 1, 0))
                    (\<lambda>(t, i). (length t, length t - i, 7)))
          (case_sum (\<lambda>(t, l, i). (length t, length t - i, 6))
                    (\<lambda>(t, i). (length t, length t - i, 5))))
       (case_sum
          (case_sum (\<lambda>(t, l, i). (length t, length t - i, 4))
                    (\<lambda>(t, i). (length t, length t - i, 3)))
          (case_sum (\<lambda>(t, i). (length t, length t - i, 2))
                    (\<lambda>(t, x, i). (length t, length t - i, 1))))"

lemma arg_shorter:
  assumes "i < length t" "p \<in> set (splitArgsText (slice t (Suc i) c))"
  shows "length p < length t"
  using splitArgsText_length[OF assms(2)] length_slice_le[of t "Suc i" c] assms(1) by linarith

lemma inside_shorter:
  assumes "i < length t"
  shows "length (trim (slice t (Suc i) c)) < length t"
  using length_trim_le[of "slice t (Suc i) c"] length_slice_le[of t "Suc i" c] assms by linarith

function parseExpression :: "string \<Rightarrow> Expr option"
  and parseAdd :: "string \<Rightarrow> nat \<Rightarrow> (Expr \<times> nat) option"
  and parseAddLoop :: "string \<Rightarrow> Expr \<Rightarrow> nat \<Rightarrow> (Expr \<times> nat) option"
  and parseMul :: "string \<Rightarrow> nat \<Rightarrow> (Expr \<times> nat) option"
  and parseMulLoop :: "string \<Rightarrow> Expr \<Rightarrow> nat \<Rightarrow> (Expr \<times> nat) option"
  and parseUnary :: "string \<Rightarrow> nat \<Rightarrow> (Expr \<times> nat) option"
  and parsePrimary :: "string \<Rightarrow> nat \<Rightarrow> (Expr \<times> nat) option"
  and parsePostfix :: "string \<Rightarrow> Expr \<Rightarrow> nat \<Rightarrow> Expr \<times> nat"
where
  "parseExpression text =
     (if CHR ''^'' \<in> set text then None
      else
        case parseAdd text 0 of
          None \<Rightarrow> None
        | Some (expr, i) \<Rightarrow> if skipWs text i \<noteq> length text then None else Some expr)"
| "parseAdd text i =
     (case parseMul text i of
        None \<Rightarrow> None
      | Some (left, i1) \<Rightarrow> parseAddLoop text left i1)"
| "parseAddLoop text left i0 =
     (let i = skipWs text i0 in
      case addOp (charAt text i) of
        None \<Rightarrow> Some (left, i)
      | Some (op, _) \<Rightarrow>
          (case parseMul text (i + 1) of
             None \<Rightarrow> None
           | Some (right, i2) \<Rightarrow> parseAddLoop text (Binary op left right) i2))"
| "parseMul text i =
     (case parseUnary text i of
        None \<Rightarrow> None
      | Some (left, i1) \<Rightarrow> parseMulLoop text left i1)"
| "parseMulLoop text left i0 =
     (let i = skipWs text i0 in
      case mulOp (charAt text i) of
        None \<Rightarrow> Some (left, i)
      | Some op \<Rightarrow>
          (case parseUnary text (i + 1) of
             None \<Rightarrow> None
           | Some (right, i2) \<Rightarrow> parseMulLoop text (Binary op left right) i2))"
| "parseUnary text i0 =
     (let i = skipWs text i0 in
      case addOp (charAt text i) of
        Some (_, op) \<Rightarrow>
          (case parseUnary text (i + 1) of
             None \<Rightarrow> None
           | Some (expr, i2) \<Rightarrow> Some (Unary op expr, i2))
      | None \<Rightarrow> parsePrimary text i)"
| "parsePrimary text i0 =
     (let i = skipWs text i0;
          ch = charAt text i;
          ctor =
            (if startsWith text ''new'' i \<and> testOpt isWordChar (charAt text (i + 3))
             then
               (case parseQualifiedIdent text (skipWs text (i + 3)) of
                  None \<Rightarrow> None
                | Some (name, ctorEnd) \<Rightarrow>
                    let i1 = skipWs text ctorEnd;
                        close = (if charAt text i1 = Some CHR ''(''
                                 then findMatching text i1 (CHR ''('') (CHR '')'') else None)
                    in
                      (case close of
                         Some close \<Rightarrow>
                           Some (New (Ident name)
                                   (map (\<lambda>p. case parseExpression p of None \<Rightarrow> Raw p | Some e \<Rightarrow> e)
                                      (splitArgsText (slice text (i1 + 1) close))),
                                 close + 1)
                       | None \<Rightarrow> Some (Raw (slice text i1 ctorEnd), i1)))
             else None)
      in
        case ctor of
          Some r \<Rightarrow> Some r
        | None \<Rightarrow>
            if ch = Some CHR ''('' \<or> ch = Some CHR ''{'' then
              (case parseAdd text (i + 1) of
                 None \<Rightarrow> None
               | Some (expr, i1) \<Rightarrow>
                   let i2 = skipWs text i1 in
                   if charAt text i2 \<noteq> Some (if ch = Some CHR ''('' then CHR '')'' else CHR ''}'')
                   then None
                   else Some (Group (if ch = Some CHR ''('' then Paren else Brace) expr, i2 + 1))
            else
              (case parseNumber text i of
                 Some (v, e) \<Rightarrow> Some (Number v, e)
               | None \<Rightarrow>
                   (case parseQualifiedIdent text i of
                      Some (name, e) \<Rightarrow> Some (parsePostfix text (Ident name) e)
                    | None \<Rightarrow> None)))"
| "parsePostfix text expr i0 =
     (let i = skipWs text i0; ch = charAt text i in
      if ch = Some CHR ''.'' then
        (case parseQualifiedIdent text (skipWs text (i + 1)) of
           None \<Rightarrow> (expr, i)
         | Some (name, e) \<Rightarrow> parsePostfix text (Member expr name) e)
      else if ch = Some CHR ''['' then
        (case findMatching text i (CHR ''['') (CHR '']'') of
           None \<Rightarrow> (expr, i)
         | Some close \<Rightarrow>
             let inside = trim (slice text (i + 1) close);
                 indexExpr = (case parseExpression inside of None \<Rightarrow> Raw inside | Some e \<Rightarrow> e)
             in parsePostfix text (Index expr indexExpr) (close + 1))
      else if ch = Some CHR ''('' then
        (case findMatching text i (CHR ''('') (CHR '')'') of
           None \<Rightarrow> (expr, i)
         | Some close \<Rightarrow>
             let args = map (\<lambda>p. case parseExpression p of None \<Rightarrow> Raw p | Some e \<Rightarrow> e)
                          (splitArgsText (slice text (i + 1) close))
             in parsePostfix text (Call expr args) (close + 1))
      else (expr, i))"
  by pat_completeness auto


termination
proof -
  have parser_end_ge:
      "parseExpression_parseAdd_parseAddLoop_parseMul_parseMulLoop_parseUnary_parsePrimary_parsePostfix_dom
             (Inl (Inl (Inl t0))) \<Longrightarrow> True"
      "parseExpression_parseAdd_parseAddLoop_parseMul_parseMulLoop_parseUnary_parsePrimary_parsePostfix_dom
             (Inl (Inl (Inr (t1, i1)))) \<Longrightarrow> \<forall>e j. parseAdd t1 i1 = Some (e, j) \<longrightarrow> i1 \<le> j"
      "parseExpression_parseAdd_parseAddLoop_parseMul_parseMulLoop_parseUnary_parsePrimary_parsePostfix_dom
             (Inl (Inr (Inl (t2, l2, i2)))) \<Longrightarrow> \<forall>e j. parseAddLoop t2 l2 i2 = Some (e, j) \<longrightarrow> i2 \<le> j"
      "parseExpression_parseAdd_parseAddLoop_parseMul_parseMulLoop_parseUnary_parsePrimary_parsePostfix_dom
             (Inl (Inr (Inr (t3, i3)))) \<Longrightarrow> \<forall>e j. parseMul t3 i3 = Some (e, j) \<longrightarrow> i3 \<le> j"
      "parseExpression_parseAdd_parseAddLoop_parseMul_parseMulLoop_parseUnary_parsePrimary_parsePostfix_dom
             (Inr (Inl (Inl (t4, l4, i4)))) \<Longrightarrow> \<forall>e j. parseMulLoop t4 l4 i4 = Some (e, j) \<longrightarrow> i4 \<le> j"
      "parseExpression_parseAdd_parseAddLoop_parseMul_parseMulLoop_parseUnary_parsePrimary_parsePostfix_dom
             (Inr (Inl (Inr (t5, i5)))) \<Longrightarrow> \<forall>e j. parseUnary t5 i5 = Some (e, j) \<longrightarrow> i5 \<le> j"
      "parseExpression_parseAdd_parseAddLoop_parseMul_parseMulLoop_parseUnary_parsePrimary_parsePostfix_dom
             (Inr (Inr (Inl (t6, i6)))) \<Longrightarrow> \<forall>e j. parsePrimary t6 i6 = Some (e, j) \<longrightarrow> i6 \<le> j"
      "parseExpression_parseAdd_parseAddLoop_parseMul_parseMulLoop_parseUnary_parsePrimary_parsePostfix_dom
             (Inr (Inr (Inr (t7, x7, i7)))) \<Longrightarrow> i7 \<le> snd (parsePostfix t7 x7 i7)"
      for t0 t1 i1 t2 l2 i2 t3 i3 t4 l4 i4 t5 i5 t6 i6 t7 x7 i7
  proof (induction rule:
      parseExpression_parseAdd_parseAddLoop_parseMul_parseMulLoop_parseUnary_parsePrimary_parsePostfix.pinduct)
    case (1 t)
    show ?case by simp
  next
    case (2 t i)
    show ?case
    proof (intro allI impI)
      fix e j assume r: "parseAdd t i = Some (e, j)"
      then obtain l k where m: "parseMul t i = Some (l, k)" and a: "parseAddLoop t l k = Some (e, j)"
        using 2(1) by (auto simp: parseAdd.psimps split: option.splits)
      from m 2(2) have "i \<le> k" by blast
      moreover from 2(3)[OF m refl] a have "k \<le> j" by blast
      ultimately show "i \<le> j" by simp
    qed
  next
    case (3 t left i0)
    let ?i = "skipWs t i0"
    have ge: "i0 \<le> ?i" by (rule skipWs_ge)
    show ?case
    proof (intro allI impI)
      fix e j assume r: "parseAddLoop t left i0 = Some (e, j)"
      show "i0 \<le> j"
      proof (cases "addOp (charAt t ?i)")
        case None
        with r 3(1) ge show ?thesis by (simp add: parseAddLoop.psimps Let_def)
      next
        case (Some opp)
        obtain op u where opp: "opp = (op, u)" by (cases opp)
        from r 3(1) Some opp obtain right k where
          m: "parseMul t (?i + 1) = Some (right, k)" and
          a: "parseAddLoop t (Binary op left right) k = Some (e, j)"
          by (auto simp: parseAddLoop.psimps Let_def split: option.splits)
        from 3(2)[OF refl Some opp[symmetric]] m have "?i + 1 \<le> k" by blast
        moreover from 3(3)[OF refl Some opp[symmetric] m refl] a have "k \<le> j" by blast
        ultimately show ?thesis using ge by simp
      qed
    qed
  next
    case (4 t i)
    show ?case
    proof (intro allI impI)
      fix e j assume r: "parseMul t i = Some (e, j)"
      then obtain l k where m: "parseUnary t i = Some (l, k)" and a: "parseMulLoop t l k = Some (e, j)"
        using 4(1) by (auto simp: parseMul.psimps split: option.splits)
      from m 4(2) have "i \<le> k" by blast
      moreover from 4(3)[OF m refl] a have "k \<le> j" by blast
      ultimately show "i \<le> j" by simp
    qed
  next
    case (5 t left i0)
    let ?i = "skipWs t i0"
    have ge: "i0 \<le> ?i" by (rule skipWs_ge)
    show ?case
    proof (intro allI impI)
      fix e j assume r: "parseMulLoop t left i0 = Some (e, j)"
      show "i0 \<le> j"
      proof (cases "mulOp (charAt t ?i)")
        case None
        with r 5(1) ge show ?thesis by (simp add: parseMulLoop.psimps Let_def)
      next
        case (Some op)
        from r 5(1) Some obtain right k where
          m: "parseUnary t (?i + 1) = Some (right, k)" and
          a: "parseMulLoop t (Binary op left right) k = Some (e, j)"
          by (auto simp: parseMulLoop.psimps Let_def split: option.splits)
        from 5(2)[OF refl Some] m have "?i + 1 \<le> k" by blast
        moreover from 5(3)[OF refl Some m refl] a have "k \<le> j" by blast
        ultimately show ?thesis using ge by simp
      qed
    qed
  next
    case (6 t i0)
    let ?i = "skipWs t i0"
    have ge: "i0 \<le> ?i" by (rule skipWs_ge)
    show ?case
    proof (intro allI impI)
      fix e j assume r: "parseUnary t i0 = Some (e, j)"
      show "i0 \<le> j"
      proof (cases "addOp (charAt t ?i)")
        case None
        with r 6(1) have "parsePrimary t ?i = Some (e, j)"
          by (simp add: parseUnary.psimps Let_def)
        with 6(2)[OF refl None] have "?i \<le> j" by blast
        with ge show ?thesis by simp
      next
        case (Some opp)
        obtain u op where opp: "opp = (u, op)" by (cases opp)
        from r 6(1) Some opp obtain x where m: "parseUnary t (?i + 1) = Some (x, j)"
          by (auto simp: parseUnary.psimps Let_def split: option.splits)
        from 6(3)[OF refl Some opp[symmetric]] m have "?i + 1 \<le> j" by blast
        with ge show ?thesis by simp
      qed
    qed
  next
    case (7 t i0)
    let ?i = "skipWs t i0"
    let ?ctor = "(if startsWith t ''new'' ?i \<and> testOpt isWordChar (charAt t (?i + 3))
               then
                 (case parseQualifiedIdent t (skipWs t (?i + 3)) of
                    None \<Rightarrow> None
                  | Some (name, ctorEnd) \<Rightarrow>
                      let i1 = skipWs t ctorEnd;
                          close = (if charAt t i1 = Some CHR ''(''
                                   then findMatching t i1 (CHR ''('') (CHR '')'') else None)
                      in
                        (case close of
                           Some close \<Rightarrow>
                             Some (New (Ident name)
                                     (map (\<lambda>p. case parseExpression p of None \<Rightarrow> Raw p | Some e \<Rightarrow> e)
                                        (splitArgsText (slice t (i1 + 1) close))),
                                   close + 1)
                         | None \<Rightarrow> Some (Raw (slice t i1 ctorEnd), i1)))
               else None)"
    have ge: "i0 \<le> ?i" by (rule skipWs_ge)
    show ?case
    proof (intro allI impI)
      fix e j assume r: "parsePrimary t i0 = Some (e, j)"
      note r' = r[unfolded parsePrimary.psimps[OF 7(1)] Let_def]
      show "i0 \<le> j"
      proof (cases ?ctor)
        case (Some res)
        note Some' = Some[unfolded Let_def]
        from r' Some' have res: "res = (e, j)" by simp
        from Some[unfolded res] obtain name ce where
          q: "parseQualifiedIdent t (skipWs t (?i + 3)) = Some (name, ce)" and
          j: "j = skipWs t ce \<or>
              (\<exists>c. findMatching t (skipWs t ce) CHR ''('' CHR '')'' = Some c \<and> j = c + 1)"
          by (auto simp: Let_def split: if_splits option.splits)
        have "?i + 3 \<le> skipWs t (?i + 3)" by (rule skipWs_ge)
        moreover have "skipWs t (?i + 3) \<le> ce" using q by (rule parseQualifiedIdent_ge)
        moreover have "ce \<le> skipWs t ce" by (rule skipWs_ge)
        moreover have "skipWs t ce \<le> j" using j by (auto dest!: findMatching_bounds)
        ultimately show ?thesis using ge by linarith
      next
        case None
        note None' = None[unfolded Let_def]
        show ?thesis
        proof (cases "charAt t ?i = Some CHR ''('' \<or> charAt t ?i = Some CHR ''{''")
          case True
          from r' None' True obtain x k where
            a: "parseAdd t (?i + 1) = Some (x, k)" and j: "j = skipWs t k + 1"
            by (auto simp: Let_def split: option.splits if_splits)
          from 7(3)[OF refl refl refl None True] a have "?i + 1 \<le> k" by blast
          moreover have "k \<le> skipWs t k" by (rule skipWs_ge)
          ultimately show ?thesis using ge j by linarith
        next
          case False
          show ?thesis
          proof (cases "parseNumber t ?i")
            case (Some ve)
            with r' None' False have "parseNumber t ?i = Some (fst ve, j)"
              by (auto simp: Let_def split: prod.splits)
            then have "?i \<le> j" by (rule parseNumber_ge)
            with ge show ?thesis by simp
          next
            case n: None
            from r' None' False n obtain name y where
              q: "parseQualifiedIdent t ?i = Some (name, y)" and
              pf: "parsePostfix t (Ident name) y = (e, j)"
              by (auto simp: Let_def split: option.splits)
            from 7(4)[OF refl refl refl None False n q refl] pf have "y \<le> j" by simp
            moreover from q have "?i \<le> y" by (rule parseQualifiedIdent_ge)
            ultimately show ?thesis using ge by simp
          qed
        qed
      qed
    qed
  next
    case (8 t expr i0)
    let ?i = "skipWs t i0"
    have ge: "i0 \<le> ?i" by (rule skipWs_ge)
    note ps = parsePostfix.psimps[OF 8(1), unfolded Let_def]
    show ?case
    proof (cases "charAt t ?i = Some CHR ''.''")
      case True
      show ?thesis
      proof (cases "parseQualifiedIdent t (skipWs t (?i + 1))")
        case None
        with True ge show ?thesis by (simp add: ps)
      next
        case (Some ne)
        obtain name y where ne: "ne = (name, y)" by (cases ne)
        from 8(2)[OF refl refl True Some[unfolded ne] refl]
        have "y \<le> snd (parsePostfix t (Member expr name) y)" .
        moreover have "skipWs t (?i + 1) \<le> y"
          using Some[unfolded ne] by (rule parseQualifiedIdent_ge)
        moreover have "?i + 1 \<le> skipWs t (?i + 1)" by (rule skipWs_ge)
        ultimately show ?thesis using True Some ne ge by (simp add: ps)
      qed
    next
      case notDot: False
      show ?thesis
      proof (cases "charAt t ?i = Some CHR ''[''")
        case True
        show ?thesis
        proof (cases "findMatching t ?i CHR ''['' CHR '']''")
          case None
          with True notDot ge show ?thesis by (simp add: ps)
        next
          case (Some c)
          from 8(4)[OF refl refl notDot True Some refl refl]
          have "c + 1 \<le> snd (parsePostfix t (Index expr
              (case parseExpression (trim (slice t (?i + 1) c)) of
                 None \<Rightarrow> Raw (trim (slice t (?i + 1) c)) | Some e \<Rightarrow> e)) (c + 1))" .
          moreover have "?i \<le> c" using Some by (auto dest: findMatching_bounds)
          ultimately show ?thesis using True notDot Some ge by (simp add: ps)
        qed
      next
        case notBr: False
        show ?thesis
        proof (cases "charAt t ?i = Some CHR ''(''")
          case True
          show ?thesis
          proof (cases "findMatching t ?i CHR ''('' CHR '')''")
            case None
            with True notDot notBr ge show ?thesis by (simp add: ps)
          next
            case (Some c)
            from 8(6)[OF refl refl notDot notBr True Some refl]
            have "c + 1 \<le> snd (parsePostfix t (Call expr
                (map (\<lambda>p. case parseExpression p of None \<Rightarrow> Raw p | Some e \<Rightarrow> e)
                   (splitArgsText (slice t (?i + 1) c)))) (c + 1))" .
            moreover have "?i \<le> c" using Some by (auto dest: findMatching_bounds)
            ultimately show ?thesis using True notDot notBr Some ge by (simp add: ps)
          qed
        next
          case False
          with notDot notBr ge show ?thesis by (simp add: ps)
        qed
      qed
    qed
  qed
  show ?thesis
  proof (relation "inv_image (less_than <*lex*> less_than <*lex*> less_than) parserMeasure", goal_cases)
    case 1
    show ?case by (intro wf_inv_image wf_lex_prod wf_less_than)
  next
    case (2 t)
    show ?case by (simp add: parserMeasure_def)
  next
    case (3 t i)
    show ?case by (simp add: parserMeasure_def)
  next
    case (4 t i x2 x y)
    then have "i \<le> y" using parser_end_ge(4)[of t i] by auto
    then show ?case by (auto simp: parserMeasure_def)
  next
    case (5 t left i0 x x2 xa y)
    then have "x < length t" "i0 \<le> x" by (auto dest: addOp_Some_less simp: skipWs_ge)
    then show ?case by (auto simp: parserMeasure_def)
  next
    case (6 t left i0 x x2 xa y x2a xb ya)
    then have "x < length t" "i0 \<le> x" by (auto dest: addOp_Some_less simp: skipWs_ge)
    moreover from 6 have "x + 1 \<le> ya" using parser_end_ge(4)[of t "x + 1"] by auto
    ultimately show ?case by (auto simp: parserMeasure_def)
  next
    case (7 t i)
    show ?case by (simp add: parserMeasure_def)
  next
    case (8 t i x2 x y)
    then have "i \<le> y" using parser_end_ge(6)[of t i] by auto
    then show ?case by (auto simp: parserMeasure_def)
  next
    case (9 t left i0 x x2)
    then have "x < length t" "i0 \<le> x" by (auto dest: mulOp_Some_less simp: skipWs_ge)
    then show ?case by (auto simp: parserMeasure_def)
  next
    case (10 t left i0 x x2 x2a xa y)
    then have "x < length t" "i0 \<le> x" by (auto dest: mulOp_Some_less simp: skipWs_ge)
    moreover from 10 have "x + 1 \<le> y" using parser_end_ge(6)[of t "x + 1"] by auto
    ultimately show ?case by (auto simp: parserMeasure_def)
  next
    case (11 t i0 x)
    then have "i0 \<le> x" by (simp add: skipWs_ge)
    then show ?case by (auto simp: parserMeasure_def)
  next
    case (12 t i0 x x2 xa y)
    then have "x < length t" "i0 \<le> x" by (auto dest: addOp_Some_less simp: skipWs_ge)
    then show ?case by (auto simp: parserMeasure_def)
  next
    case (13 t i0 x xa x2 xb y xc xd x2a xe)
    then have "xc < length t" by (auto dest: charAt_Some_less split: if_splits)
    with 13 have "length xe < length t" by (auto intro: arg_shorter)
    then show ?case by (simp add: parserMeasure_def)
  next
    case (14 t i0 x xa xb)
    then have "x < length t" "i0 \<le> x" by (auto dest: charAt_Some_less charAt_Some_less[OF sym] simp: skipWs_ge)
    then show ?case by (auto simp: parserMeasure_def)
  next
    case (15 t i0 x xa xb x2 xc y)
    then have "i0 \<le> x" "x \<le> y" by (auto dest: parseQualifiedIdent_ge simp: skipWs_ge)
    then show ?case by (auto simp: parserMeasure_def)
  next
    case (16 t expr i0 x xa x2 xb y)
    then have "charAt t x = Some CHR ''.''" by simp
    then have "x < length t" by (rule charAt_Some_less)
    moreover from 16 have "i0 \<le> x" by (simp add: skipWs_ge)
    moreover from 16 have "skipWs t (x + 1) \<le> y" by (auto dest: parseQualifiedIdent_ge)
    moreover have "x + 1 \<le> skipWs t (x + 1)" by (rule skipWs_ge)
    ultimately show ?case by (auto simp: parserMeasure_def)
  next
    case (17 t expr i0 x xa x2 xaa)
    then have "x < length t" by (auto dest: charAt_Some_less charAt_Some_less[OF sym])
    with 17 have "length xaa < length t" by (auto intro: inside_shorter)
    then show ?case by (simp add: parserMeasure_def)
  next
    case (18 t expr i0 x xa x2 xaa xb)
    then have "x < length t" "i0 \<le> x" "x \<le> x2"
      by (auto dest: charAt_Some_less charAt_Some_less[OF sym] findMatching_bounds simp: skipWs_ge)
    then show ?case by (auto simp: parserMeasure_def)
  next
    case (19 t expr i0 x xa x2 xaa)
    then have "x < length t" by (auto dest: charAt_Some_less charAt_Some_less[OF sym])
    with 19 have "length xaa < length t" by (auto intro: arg_shorter)
    then show ?case by (simp add: parserMeasure_def)
  next
    case (20 t expr i0 x xa x2 xaa)
    then have "x < length t" "i0 \<le> x" "x \<le> x2"
      by (auto dest: charAt_Some_less charAt_Some_less[OF sym] findMatching_bounds simp: skipWs_ge)
    then show ?case by (auto simp: parserMeasure_def)
  qed
qed

declare parseExpression.simps [simp del] parseAdd.simps [simp del] parseAddLoop.simps [simp del]
  parseMul.simps [simp del] parseMulLoop.simps [simp del] parseUnary.simps [simp del]
  parsePrimary.simps [simp del] parsePostfix.simps [simp del]

text \<open>
  \<open>parseExpressionAt\<close> parses the longest expression that starts at \<open>start\<close>; the
  method \<open>parseExpression()\<close> of the parser class is \<open>parseAdd\<close>.
\<close>

definition parseExpressionAt :: "string \<Rightarrow> nat \<Rightarrow> (Expr \<times> nat) option" where
  "parseExpressionAt text start =
     (case parseAdd text start of
        None \<Rightarrow> None
      | Some (expr, end) \<Rightarrow>
          if CHR ''^'' \<in> set (slice text start end) then None else Some (expr, end))"

section \<open>The renderers (scan.ts, expression part)\<close>

definition joinWith :: "string \<Rightarrow> string list \<Rightarrow> string" where
  "joinWith sep xs = (case xs of [] \<Rightarrow> [] | x # ys \<Rightarrow> x @ concat (map (\<lambda>y. sep @ y) ys))"

text \<open>
  \<open>escapeLatex\<close> is \<open>text.replace(/\\/g, '\\textbackslash{}').replace(/([{}_^%$#&])/g, '\\$1')\<close>:
  the second replacement runs over the result of the first.
\<close>

definition escapeBackslash :: "char \<Rightarrow> string" where
  "escapeBackslash c = (if c = backslash then backslash # ''textbackslash{}'' else [c])"

definition escapeSpecial :: "char \<Rightarrow> string" where
  "escapeSpecial c = (if c \<in> set ''{}_^%$#&'' then [backslash, c] else [c])"

definition escapeLatex :: "string \<Rightarrow> string" where
  "escapeLatex text = concat (map escapeSpecial (concat (map escapeBackslash text)))"

fun binaryOpText :: "BinaryOp \<Rightarrow> string" where
  "binaryOpText Add = ''+''"
| "binaryOpText Sub = ''-''"
| "binaryOpText Mul = ''*''"
| "binaryOpText Div = ''/''"

fun unaryOpText :: "UnaryOp \<Rightarrow> string" where
  "unaryOpText UPlus = ''+''"
| "unaryOpText UMinus = ''-''"

definition PrecAdd :: nat where "PrecAdd = 10"
definition PrecMul :: nat where "PrecMul = 20"
definition PrecUnary :: nat where "PrecUnary = 30"
definition PrecPrimary :: nat where "PrecPrimary = 40"

fun precOf :: "Expr \<Rightarrow> nat" where
  "precOf (Binary op l r) = (if op = Add \<or> op = Sub then PrecAdd else PrecMul)"
| "precOf (Unary op e) = PrecUnary"
| "precOf e = PrecPrimary"

definition leftParen :: string where "leftParen = backslash # ''left(''"
definition rightParen :: string where "rightParen = backslash # ''right)''"

fun exprToLatex :: "Expr \<Rightarrow> string" and latexWrap :: "Expr \<Rightarrow> nat \<Rightarrow> string" where
  "latexWrap expr parentPrec =
     (let latex = exprToLatex expr in
      if precOf expr < parentPrec then leftParen @ latex @ rightParen else latex)"
| "exprToLatex (Number v) = escapeLatex v"
| "exprToLatex (Ident name) = escapeLatex name"
| "exprToLatex (Raw t) = backslash # ''text{'' @ escapeLatex t @ ''}''"
| "exprToLatex (Group bracket e) =
     (if bracket = Brace
      then backslash # ''left'' @ backslash # ''{'' @ exprToLatex e @ backslash # ''right'' @ backslash # ''}''
      else leftParen @ exprToLatex e @ rightParen)"
| "exprToLatex (Unary op e) = escapeLatex (unaryOpText op) @ latexWrap e PrecUnary"
| "exprToLatex (Binary op l r) =
     (if op = Div then backslash # ''frac{'' @ exprToLatex l @ ''}{'' @ exprToLatex r @ ''}''
      else
        let opLatex = (if op = Mul then backslash # ''cdot'' else escapeLatex (binaryOpText op));
            parentPrec = (if op = Add \<or> op = Sub then PrecAdd else PrecMul)
        in latexWrap l parentPrec @ '' '' @ opLatex @ '' '' @ latexWrap r (parentPrec + 1))"
| "exprToLatex (Member obj m) = exprToLatex obj @ ''.'' @ escapeLatex m"
| "exprToLatex (Index obj idx) = exprToLatex obj @ ''_{'' @ exprToLatex idx @ ''}''"
| "exprToLatex (Call callee as) =
     exprToLatex callee @ leftParen @ joinWith '', '' (map exprToLatex as) @ rightParen"
| "exprToLatex (New ctor as) =
     backslash # ''operatorname{new}'' @ backslash # '','' @ exprToLatex ctor @
       leftParen @ joinWith '', '' (map exprToLatex as) @ rightParen"

fun exprContainsOperator :: "Expr \<Rightarrow> bool" where
  "exprContainsOperator (Binary op l r) = True"
| "exprContainsOperator (Unary op e) = exprContainsOperator e"
| "exprContainsOperator (Group bracket e) = exprContainsOperator e"
| "exprContainsOperator (Member obj m) = exprContainsOperator obj"
| "exprContainsOperator (Index obj idx) = (exprContainsOperator obj \<or> exprContainsOperator idx)"
| "exprContainsOperator (Call callee as) =
     ((\<exists>a \<in> set as. exprContainsOperator a) \<or> exprContainsOperator callee)"
| "exprContainsOperator (New ctor as) =
     ((\<exists>a \<in> set as. exprContainsOperator a) \<or> exprContainsOperator ctor)"
| "exprContainsOperator e = False"

definition middleDot :: string where "middleDot = [CHR 0xC2, CHR 0xB7]"
definition fractionSlash :: string where "fractionSlash = [CHR 0xE2, CHR 0x81, CHR 0x84]"
definition capitalSigma :: string where "capitalSigma = [CHR 0xCE, CHR 0xA3]"

definition superscripts :: "char \<Rightarrow> string option" where
  "superscripts =
     map_of [(CHR ''0'', [CHR 0xE2, CHR 0x81, CHR 0xB0]), (CHR ''1'', [CHR 0xC2, CHR 0xB9]),
             (CHR ''2'', [CHR 0xC2, CHR 0xB2]), (CHR ''3'', [CHR 0xC2, CHR 0xB3]),
             (CHR ''4'', [CHR 0xE2, CHR 0x81, CHR 0xB4]), (CHR ''5'', [CHR 0xE2, CHR 0x81, CHR 0xB5]),
             (CHR ''6'', [CHR 0xE2, CHR 0x81, CHR 0xB6]), (CHR ''7'', [CHR 0xE2, CHR 0x81, CHR 0xB7]),
             (CHR ''8'', [CHR 0xE2, CHR 0x81, CHR 0xB8]), (CHR ''9'', [CHR 0xE2, CHR 0x81, CHR 0xB9])]"

definition toSuperscriptDigits :: "string \<Rightarrow> string option" where
  "toSuperscriptDigits v =
     (if \<not> (v \<noteq> [] \<and> (\<forall>ch \<in> set v. isDigit ch)) then None
      else Some (concat (map (\<lambda>ch. case superscripts ch of None \<Rightarrow> [ch] | Some s \<Rightarrow> s) v)))"

fun exprToInlineText :: "Expr \<Rightarrow> string" where
  "exprToInlineText (Number v) = v"
| "exprToInlineText (Ident name) = name"
| "exprToInlineText (Raw t) = t"
| "exprToInlineText (Group bracket e) =
     (if bracket = Brace then ''{'' @ exprToInlineText e @ ''}''
      else ''('' @ exprToInlineText e @ '')'')"
| "exprToInlineText (Unary op e) = unaryOpText op @ exprToInlineText e"
| "exprToInlineText (Binary op l r) =
     (let opText = (if op = Mul then middleDot else if op = Div then fractionSlash
                    else binaryOpText op)
      in exprToInlineText l @ opText @ exprToInlineText r)"
| "exprToInlineText (Member obj m) = exprToInlineText obj @ ''.'' @ m"
| "exprToInlineText (Index obj idx) = exprToInlineText obj @ ''['' @ exprToInlineText idx @ '']''"
| "exprToInlineText (Call callee as) =
     exprToInlineText callee @ ''('' @ joinWith '','' (map exprToInlineText as) @ '')''"
| "exprToInlineText (New ctor as) =
     ''new '' @ exprToInlineText ctor @ ''('' @ joinWith '','' (map exprToInlineText as) @ '')''"


section \<open>Where a match of a regular expression ends\<close>

declare rmatch.simps(6) [simp del] execFrom.simps [simp del]

lemma rmatch_unread_le:
  "st' \<in> set (rmatch r st) \<Longrightarrow> length (unread st') \<le> length (unread st)"
proof (induction r st arbitrary: st' rule: rmatch.induct)
  case (2 P st)
  then show ?case by (cases "unread st") (auto split: if_splits)
next
  case (3 a b st)
  from "3.prems" obtain st1 where "st1 \<in> set (rmatch a st)" "st' \<in> set (rmatch b st1)"
    by auto
  with "3.IH" show ?case by (meson le_trans)
next
  case (6 r st)
  show ?case
  proof (cases "st' = st")
    case True
    then show ?thesis by simp
  next
    case False
    from "6.prems" have
      "st' \<in> set (concat (map (\<lambda>st'. if length (unread st') < length (unread st)
                                        then rmatch (Star r) st' else [])
                               (rmatch r st)) @ [st])"
      by (subst (asm) rmatch.simps(6))
    with False obtain st1 where
      "st1 \<in> set (rmatch r st)" "length (unread st1) < length (unread st)"
      "st' \<in> set (rmatch (Star r) st1)"
      by (auto split: if_splits)
    with "6.IH"(2)[of st1 st'] show ?thesis by simp
  qed
qed (auto simp: consume_def split: list.splits if_splits option.splits)

lemma consume_unread_less:
  "st' \<in> set (consume (c # cs) st) \<Longrightarrow> length (unread st') < length (unread st)"
  by (cases "unread st") (auto simp: consume_def split: if_splits)

lemma execFrom_hit:
  "rmatch r \<lparr>preceding = p, unread = s, captures = []\<rparr> = st # sts \<Longrightarrow>
   execFrom r input p i s =
     Some \<lparr>matchIndex = i, matchEnd = length input - length (unread st),
           matchGroup = map_of (captures st)\<rparr>"
  by (subst execFrom.simps) simp

lemma execFrom_miss_Nil:
  "rmatch r \<lparr>preceding = p, unread = [], captures = []\<rparr> = [] \<Longrightarrow>
   execFrom r input p i [] = None"
  by (subst execFrom.simps) simp

lemma execFrom_miss_Cons:
  "rmatch r \<lparr>preceding = p, unread = c # cs, captures = []\<rparr> = [] \<Longrightarrow>
   execFrom r input p i (c # cs) = execFrom r input (Some c) (i + 1) cs"
  by (subst execFrom.simps) simp

lemma execFrom_end:
  "execFrom r input p i s = Some m \<Longrightarrow>
     \<exists>k p' st'. matchIndex m = i + k \<and> k \<le> length s \<and>
        st' \<in> set (rmatch r \<lparr>preceding = p', unread = drop k s, captures = []\<rparr>) \<and>
        matchEnd m = length input - length (unread st')"
proof (induction s arbitrary: p i)
  case Nil
  show ?case
  proof (cases "rmatch r \<lparr>preceding = p, unread = [], captures = []\<rparr>")
    case Nil
    with Nil.prems show ?thesis by (simp add: execFrom_miss_Nil)
  next
    case (Cons st sts)
    from Nil.prems execFrom_hit[OF Cons, of input i]
    have "matchIndex m = i" "matchEnd m = length input - length (unread st)" by auto
    with Cons show ?thesis
      by (intro exI[of _ 0] exI[of _ p] exI[of _ st]) simp
  qed
next
  case (Cons c cs)
  show ?case
  proof (cases "rmatch r \<lparr>preceding = p, unread = c # cs, captures = []\<rparr>")
    case Nil
    with Cons.prems have "execFrom r input (Some c) (i + 1) cs = Some m"
      by (simp add: execFrom_miss_Cons)
    from Cons.IH[OF this] obtain k p' st' where
      "matchIndex m = i + 1 + k" "k \<le> length cs"
      "st' \<in> set (rmatch r \<lparr>preceding = p', unread = drop k cs, captures = []\<rparr>)"
      "matchEnd m = length input - length (unread st')"
      by blast
    then show ?thesis
      by (intro exI[of _ "Suc k"] exI[of _ p'] exI[of _ st']) simp
  next
    case hit: (Cons st sts)
    from Cons.prems execFrom_hit[OF hit, of input i]
    have "matchIndex m = i" "matchEnd m = length input - length (unread st)" by auto
    with hit show ?thesis
      by (intro exI[of _ 0] exI[of _ p] exI[of _ st]) simp
  qed
qed

lemma regexExec_end:
  assumes "regexExec r input lastIndex = Some m"
  shows "\<exists>k p' st'. matchIndex m = lastIndex + k \<and> lastIndex + k \<le> length input \<and>
        st' \<in> set (rmatch r \<lparr>preceding = p', unread = drop (lastIndex + k) input, captures = []\<rparr>) \<and>
        matchEnd m = length input - length (unread st')"
proof -
  from assms have le: "lastIndex \<le> length input" and
    ex: "execFrom r input (if lastIndex = 0 then None else Some (input ! (lastIndex - 1)))
           lastIndex (drop lastIndex input) = Some m"
    by (auto simp: regexExec_def split: if_splits)
  from execFrom_end[OF ex] obtain k p' st' where
    "matchIndex m = lastIndex + k" "k \<le> length (drop lastIndex input)"
    "st' \<in> set (rmatch r \<lparr>preceding = p', unread = drop k (drop lastIndex input), captures = []\<rparr>)"
    "matchEnd m = length input - length (unread st')"
    by blast
  with le show ?thesis
    by (intro exI[of _ k] exI[of _ p'] exI[of _ st']) (simp add: add.commute)
qed

section \<open>The Power-Call detector (scan.ts, pow part)\<close>

text \<open>
  A match's \<open>range\<close> is \<open>new vscode.Range(document.positionAt(a), document.positionAt(b))\<close>
  in the source; the model keeps the two offsets \<open>(a, b)\<close> into the text.
  \<open>powRe\<close> is \<open>/(?:\b[A-Za-z_]\w*\s*\.\s*)*Math\s*\.\s*pow\s*\(/g\<close>.
\<close>

definition powRe :: regex where
  "powRe = seqs [Star (seqs [WordB, identRe, wsStar, Lit ''.'', wsStar]),
                 Lit ''Math'', wsStar, Lit ''.'', wsStar, Lit ''pow'', wsStar, Lit ''('']"

text \<open>
  \<open>findMatchingParen\<close> (and \<open>findMatchingBrace\<close> below) is the loop of
  \<open>findMatching\<close> with the two characters fixed.
\<close>

definition findMatchingParen :: "string \<Rightarrow> nat \<Rightarrow> nat option" where
  "findMatchingParen maskedText openParenIndex =
     findMatchingLoop maskedText (CHR ''('') (CHR '')'') openParenIndex 0"

text \<open>
  The loop of \<open>splitTwoArgs\<close>: it returns at the first comma outside every bracket, with
  the trimmed texts before and after it, and gives up when one of the two is empty.
\<close>

function splitTwoArgsLoop ::
  "string \<Rightarrow> nat \<Rightarrow> nat \<Rightarrow> nat \<Rightarrow> nat \<Rightarrow> nat \<Rightarrow> nat \<Rightarrow> (string \<times> string) option" where
  "splitTwoArgsLoop maskedText start end i depthParen depthBrace depthBracket =
     (if \<not> i < end then None
      else
        let ch = charAt maskedText i in
        if ch = Some CHR ''('' then
          splitTwoArgsLoop maskedText start end (i + 1) (depthParen + 1) depthBrace depthBracket
        else if ch = Some CHR '')'' then
          splitTwoArgsLoop maskedText start end (i + 1) (depthParen - 1) depthBrace depthBracket
        else if ch = Some CHR ''{'' then
          splitTwoArgsLoop maskedText start end (i + 1) depthParen (depthBrace + 1) depthBracket
        else if ch = Some CHR ''}'' then
          splitTwoArgsLoop maskedText start end (i + 1) depthParen (depthBrace - 1) depthBracket
        else if ch = Some CHR ''['' then
          splitTwoArgsLoop maskedText start end (i + 1) depthParen depthBrace (depthBracket + 1)
        else if ch = Some CHR '']'' then
          splitTwoArgsLoop maskedText start end (i + 1) depthParen depthBrace (depthBracket - 1)
        else if ch = Some CHR '','' \<and> depthParen = 0 \<and> depthBrace = 0 \<and> depthBracket = 0 then
          (let a = trim (slice maskedText start i);
               b = trim (slice maskedText (i + 1) end)
           in if a = [] \<or> b = [] then None else Some (a, b))
        else
          splitTwoArgsLoop maskedText start end (i + 1) depthParen depthBrace depthBracket)"
  by pat_completeness auto
termination
  by (relation "measure (\<lambda>(maskedText, start, end, i, dp, db, dk). end - i)") auto

declare splitTwoArgsLoop.simps [simp del]

definition splitTwoArgs :: "string \<Rightarrow> nat \<Rightarrow> nat \<Rightarrow> (string \<times> string) option" where
  "splitTwoArgs maskedText start end = splitTwoArgsLoop maskedText start end start 0 0 0"

definition formatPowInline :: "Expr \<Rightarrow> Expr \<Rightarrow> string" where
  "formatPowInline base exp =
     (let baseText = (if exprContainsOperator base then ''('' @ exprToInlineText base @ '')''
                      else exprToInlineText base);
          sup = (case exp of Number v \<Rightarrow> toSuperscriptDigits v | _ \<Rightarrow> None)
      in case sup of
           Some digits \<Rightarrow> if digits \<noteq> [] then baseText @ digits
                          else baseText @ ''^('' @ exprToInlineText exp @ '')''
         | None \<Rightarrow> baseText @ ''^('' @ exprToInlineText exp @ '')'')"

record PowMatch =
  pow_range :: "nat \<times> nat"
  pow_calleeText :: string
  pow_baseText :: string
  pow_expText :: string
  pow_baseExpr :: Expr
  pow_expExpr :: Expr
  pow_latex :: string
  pow_inlineText :: string

text \<open>The match that an iteration of \<open>findPowCalls\<close> pushes.\<close>

definition powMatch :: "string \<Rightarrow> nat \<Rightarrow> nat \<Rightarrow> nat \<Rightarrow> string \<Rightarrow> string \<Rightarrow> PowMatch" where
  "powMatch text start openParen closeParen a b =
     (let baseExpr = (case parseExpression a of None \<Rightarrow> Raw a | Some e \<Rightarrow> e);
          expExpr = (case parseExpression b of None \<Rightarrow> Raw b | Some e \<Rightarrow> e);
          baseLatexRaw = exprToLatex baseExpr;
          baseLatex = (if exprContainsOperator baseExpr
                       then leftParen @ baseLatexRaw @ rightParen else baseLatexRaw);
          latex = ''{'' @ baseLatex @ ''}^{'' @ exprToLatex expExpr @ ''}'';
          calleeText = trim (slice text start openParen);
          inlineText = formatPowInline baseExpr expExpr
      in \<lparr>pow_range = (start, closeParen + 1), pow_calleeText = calleeText,
          pow_baseText = a, pow_expText = b, pow_baseExpr = baseExpr, pow_expExpr = expExpr,
          pow_latex = latex, pow_inlineText = inlineText\<rparr>)"

lemma rmatch_Seq_iff:
  "st' \<in> set (rmatch (Seq a b) st) \<longleftrightarrow> (\<exists>st1 \<in> set (rmatch a st). st' \<in> set (rmatch b st1))"
  by auto

lemma powRe_consumes:
  assumes "st' \<in> set (rmatch powRe st)"
  shows "length (unread st') < length (unread st)"
proof -
  obtain A R where p: "powRe = Seq A (Seq (Lit ''Math'') R)"
    by (simp add: powRe_def seqs_def)
  from assms[unfolded p] obtain st1 st2 where
    1: "st1 \<in> set (rmatch A st)" and
    2: "st2 \<in> set (rmatch (Lit ''Math'') st1)" and
    3: "st' \<in> set (rmatch R st2)"
    unfolding rmatch_Seq_iff by blast
  from 1 have "length (unread st1) \<le> length (unread st)" by (rule rmatch_unread_le)
  moreover from 2 have "length (unread st2) < length (unread st1)"
    by (simp add: consume_unread_less)
  moreover from 3 have "length (unread st') \<le> length (unread st2)" by (rule rmatch_unread_le)
  ultimately show ?thesis by simp
qed

lemma powRe_exec:
  assumes "regexExec powRe maskedText lastIndex = Some m"
  shows "lastIndex \<le> matchIndex m \<and> matchIndex m < matchEnd m \<and> lastIndex \<le> length maskedText"
proof -
  from regexExec_end[OF assms] obtain k p' st' where
    i: "matchIndex m = lastIndex + k" and
    k: "lastIndex + k \<le> length maskedText" and
    st: "st' \<in> set (rmatch powRe \<lparr>preceding = p', unread = drop (lastIndex + k) maskedText, captures = []\<rparr>)" and
    e: "matchEnd m = length maskedText - length (unread st')"
    by blast
  from powRe_consumes[OF st] have "length (unread st') < length maskedText - (lastIndex + k)"
    by simp
  with i k e show ?thesis by simp
qed

lemma findMatchingParen_bounds:
  "findMatchingParen t i = Some k \<Longrightarrow> i \<le> k \<and> k < length t"
  unfolding findMatchingParen_def by (rule findMatchingLoop_bounds)

text \<open>
  The \<open>while\<close> loop of \<open>findPowCalls\<close>. \<open>lastIndex\<close> is \<open>powRe.lastIndex\<close>:
  \<open>exec\<close> leaves it at the end of the match, where a \<open>continue\<close> resumes the search,
  and a pushed match sets it to \<open>closeParen + 1\<close>. The loop ends when \<open>exec\<close>
  finds nothing.
\<close>

function findPowCallsLoop :: "string \<Rightarrow> string \<Rightarrow> nat \<Rightarrow> PowMatch list \<Rightarrow> PowMatch list" where
  "findPowCallsLoop text maskedText lastIndex results =
     (case regexExec powRe maskedText lastIndex of
        None \<Rightarrow> results
      | Some m \<Rightarrow>
          let start = matchIndex m;
              prev = (if start > 0 then charAt maskedText (start - 1) else None)
          in
            if testOpt (\<lambda>p. isIdentChar p \<or> p = CHR ''.'') prev then
              findPowCallsLoop text maskedText (matchEnd m) results
            else
              let openParen = start + (matchEnd m - matchIndex m) - 1 in
              case findMatchingParen maskedText openParen of
                None \<Rightarrow> findPowCallsLoop text maskedText (matchEnd m) results
              | Some closeParen \<Rightarrow>
                  (case splitTwoArgs maskedText (openParen + 1) closeParen of
                     None \<Rightarrow> findPowCallsLoop text maskedText (matchEnd m) results
                   | Some (a, b) \<Rightarrow>
                       if CHR ''^'' \<in> set a \<or> CHR ''^'' \<in> set b then
                         findPowCallsLoop text maskedText (matchEnd m) results
                       else
                         findPowCallsLoop text maskedText (closeParen + 1)
                           (results @ [powMatch text start openParen closeParen a b])))"
  by pat_completeness auto
termination
proof (relation "measure (\<lambda>(text, maskedText, lastIndex, results). Suc (length maskedText) - lastIndex)",
    goal_cases)
  case 1
  show ?case by simp
next
  case (2 t mt li rs m)
  then show ?case using powRe_exec[of mt li m] by auto
next
  case (3 t mt li rs m)
  then show ?case using powRe_exec[of mt li m] by auto
next
  case (4 t mt li rs m s p op cp)
  then show ?case using powRe_exec[of mt li m] by auto
next
  case (5 t mt li rs m s p op cp ab a b)
  then show ?case using powRe_exec[of mt li m] by auto
next
  case (6 t mt li rs m s p op cp ab a b)
  then show ?case
    using powRe_exec[of mt li m] findMatchingParen_bounds[of mt op cp] by auto
qed

declare findPowCallsLoop.simps [simp del]

definition findPowCalls :: "string \<Rightarrow> string \<Rightarrow> PowMatch list" where
  "findPowCalls text maskedText = findPowCallsLoop text maskedText 0 []"


section \<open>The Loop-Summation detector (forLoopSum)\<close>

text \<open>
  \<open>indexOfFrom text pat i\<close> is \<open>text.indexOf(pat, i)\<close> for a non-empty \<open>pat\<close>
  (\<open>None\<close> for \<open>-1\<close>), \<open>splitOn CHR '';''\<close> is \<open>split(';')\<close>, and
  \<open>escapeRegExp\<close> makes a text match literally. The expressions are
  \<open>initRe = /\b(?:var|let|const|int|long|size_t|auto)?\s*([A-Za-z_]\w*)\s*=\s*([^;]+)$/\<close>,
  \<open>condRe = ^ident\s*(<=|<)\s*([^;]+)$\<close> and
  \<open>updateRe = (?:\+\+\s*ident|ident\s*\+\+|ident\s*\+=\s*1|ident\s*=\s*ident\s*\+\s*1)\<close>,
  the last one without anchors, as in the source.
\<close>

function indexOfFrom :: "string \<Rightarrow> string \<Rightarrow> nat \<Rightarrow> nat option" where
  "indexOfFrom text pat i =
     (if length text < i + length pat then None
      else if startsWith text pat i then Some i
      else indexOfFrom text pat (i + 1))"
  by pat_completeness auto
termination
  by (relation "measure (\<lambda>(text, pat, i). Suc (length text) - i)") auto

declare indexOfFrom.simps [simp del]

fun splitOn :: "char \<Rightarrow> string \<Rightarrow> string list" where
  "splitOn sep [] = [[]]"
| "splitOn sep (c # cs) =
     (if c = sep then [] # splitOn sep cs
      else (case splitOn sep cs of part # parts \<Rightarrow> (c # part) # parts | [] \<Rightarrow> [[c]]))"

definition findMatchingBrace :: "string \<Rightarrow> nat \<Rightarrow> nat option" where
  "findMatchingBrace text openIndex = findMatchingLoop text (CHR ''{'') (CHR ''}'') openIndex 0"

definition escapeRegExp :: "string \<Rightarrow> regex" where
  "escapeRegExp text = Lit text"

definition initRe :: regex where
  "initRe = seqs [WordB,
                  Opt (alts (map Lit [''var'', ''let'', ''const'', ''int'', ''long'', ''size_t'', ''auto''])),
                  wsStar, Cap 1 identRe, wsStar, Lit ''='', wsStar,
                  Cap 2 (Plus (Class notSemicolon)), Eol]"

definition condRe :: "regex \<Rightarrow> regex" where
  "condRe indexVarRe =
     seqs [Bol, indexVarRe, wsStar, Cap 1 (Alt (Lit ''<='') (Lit ''<'')), wsStar,
           Cap 2 (Plus (Class notSemicolon)), Eol]"

definition updateRe :: "regex \<Rightarrow> regex" where
  "updateRe indexVarRe =
     alts [seqs [Lit ''++'', wsStar, indexVarRe],
           seqs [indexVarRe, wsStar, Lit ''++''],
           seqs [indexVarRe, wsStar, Lit ''+='', wsStar, Lit ''1''],
           seqs [indexVarRe, wsStar, Lit ''='', wsStar, indexVarRe, wsStar, Lit ''+'', wsStar, Lit ''1'']]"

record ForHeader =
  hdr_indexVar :: string
  hdr_lower :: string
  hdr_upper :: string

definition parseForHeader :: "string \<Rightarrow> ForHeader option" where
  "parseForHeader header =
     (let parts = splitOn (CHR '';'') header in
      if length parts < 3 then None
      else
        let init = parts ! 0; cond = parts ! 1; update = parts ! 2 in
        case regexExec initRe (trim init) 0 of
          None \<Rightarrow> None
        | Some initM \<Rightarrow>
            let indexVar = grp initM 1;
                indexVarRe = escapeRegExp indexVar;
                lower = trim (grp initM 2);
                condTrim = trim cond
            in
              (case regexExec (condRe indexVarRe) condTrim 0 of
                 None \<Rightarrow> None
               | Some condM \<Rightarrow>
                   let op = grp condM 1;
                       rhs = trim (grp condM 2);
                       upd = trim update
                   in
                     if \<not> regexTest (updateRe indexVarRe) upd then None
                     else
                       let upper = (if op = ''<'' then rhs @ '' - 1'' else rhs) in
                       Some \<lparr>hdr_indexVar = indexVar, hdr_lower = lower, hdr_upper = upper\<rparr>))"

definition plusEqRe :: regex where
  "plusEqRe = seqs [WordB, Cap 1 identRe, wsStar, Lit ''+='', wsStar,
                    Cap 2 (Plus (Class notSemicolon)), Lit '';'']"

definition sumEqLeftRe :: regex where
  "sumEqLeftRe = seqs [WordB, Cap 1 identRe, wsStar, Lit ''='', wsStar, BackRef 1, wsStar,
                       Lit ''+'', wsStar, Cap 2 (Plus (Class notSemicolon)), Lit '';'']"

definition sumEqRightRe :: regex where
  "sumEqRightRe = seqs [WordB, Cap 1 identRe, wsStar, Lit ''='', wsStar,
                        Cap 2 (Plus (Class notSemicolon)), wsStar, Lit ''+'', wsStar, BackRef 1,
                        wsStar, Lit '';'']"

definition extractSummation :: "string \<Rightarrow> (string \<times> string) option" where
  "extractSummation body =
     (case regexExec plusEqRe body 0 of
        Some plusEq \<Rightarrow> Some (grp plusEq 1, trim (grp plusEq 2))
      | None \<Rightarrow>
          (case regexExec sumEqLeftRe body 0 of
             Some sumEqLeft \<Rightarrow> Some (grp sumEqLeft 1, trim (grp sumEqLeft 2))
           | None \<Rightarrow>
               (case regexExec sumEqRightRe body 0 of
                  Some sumEqRight \<Rightarrow> Some (grp sumEqRight 1, trim (grp sumEqRight 2))
                | None \<Rightarrow> None)))"

record SumMatch =
  sum_range :: "nat \<times> nat"
  sum_indexVar :: string
  sum_lowerText :: string
  sum_upperText :: string
  sum_accumulatorText :: string
  sum_termText :: string
  sum_latex :: string
  sum_inlineText :: string

definition sumMatch :: "nat \<Rightarrow> nat \<Rightarrow> ForHeader \<Rightarrow> string \<Rightarrow> string \<Rightarrow> SumMatch" where
  "sumMatch idx bodyEnd header accumulatorText termText =
     (let lowerExpr = (case parseExpression (hdr_lower header) of
                         None \<Rightarrow> Raw (hdr_lower header) | Some e \<Rightarrow> e);
          upperExpr = (case parseExpression (hdr_upper header) of
                         None \<Rightarrow> Raw (hdr_upper header) | Some e \<Rightarrow> e);
          termExpr = (case parseExpression termText of None \<Rightarrow> Raw termText | Some e \<Rightarrow> e);
          accExpr = (case parseExpression accumulatorText of
                       None \<Rightarrow> Raw accumulatorText | Some e \<Rightarrow> e);
          sumLatex = backslash # ''sum_{'' @ hdr_indexVar header @ ''='' @ exprToLatex lowerExpr @
                       ''}^{'' @ exprToLatex upperExpr @ ''} '' @ exprToLatex termExpr;
          sumInline = capitalSigma @ ''_'' @ hdr_indexVar header @ ''='' @
                        exprToInlineText lowerExpr @ ''..'' @ exprToInlineText upperExpr @ '' '' @
                        exprToInlineText termExpr;
          latex = exprToLatex accExpr @ '' = '' @ sumLatex;
          inlineText = exprToInlineText accExpr @ '' = '' @ sumInline
      in \<lparr>sum_range = (idx, bodyEnd), sum_indexVar = hdr_indexVar header,
          sum_lowerText = hdr_lower header, sum_upperText = hdr_upper header,
          sum_accumulatorText = accumulatorText, sum_termText = termText,
          sum_latex = latex, sum_inlineText = inlineText\<rparr>)"

text \<open>
  One iteration of the loop of \<open>findForLoopSummations\<close>, from the index \<open>idx\<close> of
  a found \<open>for\<close>: the value of \<open>i\<close> for the next iteration and the match that the
  iteration pushes, if any. \<open>findBody\<close> is the part under the comment
  ``Find body: either \{ ... \} or a single statement'': the body's end and text, or
  \<open>None\<close> where the loop continues at \<open>closeParen + 1\<close>. \<open>sumFromBody\<close> is the
  rest of the iteration.
\<close>

definition findBody :: "string \<Rightarrow> nat \<Rightarrow> (nat \<times> string) option" where
  "findBody maskedText closeParen =
     (let bodyStart = skipWs maskedText (closeParen + 1) in
      if charAt maskedText bodyStart = Some CHR ''{'' then
        (case findMatchingBrace maskedText bodyStart of
           None \<Rightarrow> None
         | Some bodyEnd \<Rightarrow> Some (bodyEnd, slice maskedText (bodyStart + 1) bodyEnd))
      else
        (case indexOfFrom maskedText '';'' bodyStart of
           None \<Rightarrow> None
         | Some semi \<Rightarrow> Some (semi + 1, slice maskedText bodyStart semi)))"

definition sumFromBody ::
  "nat \<Rightarrow> ForHeader \<Rightarrow> nat \<Rightarrow> string \<Rightarrow> nat \<times> SumMatch option" where
  "sumFromBody idx header bodyEnd bodyText =
     (case extractSummation bodyText of
        None \<Rightarrow> (bodyEnd + 1, None)
      | Some (accumulatorText, termText) \<Rightarrow>
          if CHR ''^'' \<in> set termText \<or> CHR ''^'' \<in> set (hdr_lower header) \<or>
             CHR ''^'' \<in> set (hdr_upper header)
          then (bodyEnd + 1, None)
          else (bodyEnd + 1, Some (sumMatch idx bodyEnd header accumulatorText termText)))"

definition sumStep :: "string \<Rightarrow> nat \<Rightarrow> nat \<times> SumMatch option" where
  "sumStep maskedText idx =
     (let prev = (if idx > 0 then charAt maskedText (idx - 1) else None);
          next = charAt maskedText (idx + 3)
      in
        if testOpt isIdentChar prev \<or> testOpt isIdentChar next then (idx + 3, None)
        else
          let j = skipWs maskedText (idx + 3) in
          if charAt maskedText j \<noteq> Some CHR ''('' then (idx + 3, None)
          else
            case findMatching maskedText j (CHR ''('') (CHR '')'') of
              None \<Rightarrow> (idx + 3, None)
            | Some closeParen \<Rightarrow>
                (case parseForHeader (slice maskedText (j + 1) closeParen) of
                   None \<Rightarrow> (closeParen + 1, None)
                 | Some header \<Rightarrow>
                     (case findBody maskedText closeParen of
                        None \<Rightarrow> (closeParen + 1, None)
                      | Some (bodyEnd, bodyText) \<Rightarrow> sumFromBody idx header bodyEnd bodyText)))"

lemma indexOfFrom_ge: "indexOfFrom t pat i = Some k \<Longrightarrow> i \<le> k"
proof (induction "Suc (length t) - i" arbitrary: i rule: less_induct)
  case less
  have IH: "Suc i \<le> k" if "\<not> length t < i + length pat" "indexOfFrom t pat (Suc i) = Some k"
    using less.hyps[of "Suc i"] that by simp
  from less.prems show ?case
    by (subst (asm) indexOfFrom.simps) (auto split: if_splits dest: IH)
qed

lemma findMatchingBrace_bounds:
  "findMatchingBrace t i = Some k \<Longrightarrow> i \<le> k \<and> k < length t"
  unfolding findMatchingBrace_def by (rule findMatchingLoop_bounds)

lemma findBody_bounds:
  assumes "findBody maskedText closeParen = Some (bodyEnd, bodyText)"
  shows "closeParen < bodyEnd"
proof -
  let ?b = "skipWs maskedText (closeParen + 1)"
  have b: "closeParen + 1 \<le> ?b" by (rule skipWs_ge)
  show ?thesis
  proof (cases "charAt maskedText ?b = Some CHR ''{''")
    case True
    with assms have "findMatchingBrace maskedText ?b = Some bodyEnd"
      by (simp add: findBody_def Let_def split: option.splits)
    from findMatchingBrace_bounds[OF this] b show ?thesis by simp
  next
    case False
    with assms obtain semi where "indexOfFrom maskedText '';'' ?b = Some semi" "bodyEnd = semi + 1"
      by (auto simp: findBody_def Let_def split: option.splits)
    with indexOfFrom_ge[of maskedText "'';''" ?b semi] b show ?thesis by simp
  qed
qed

lemma sumFromBody_next: "fst (sumFromBody idx header bodyEnd bodyText) = bodyEnd + 1"
  by (simp add: sumFromBody_def split: option.splits prod.splits)

lemma sumStep_advances: "idx < fst (sumStep maskedText idx)"
proof -
  let ?j = "skipWs maskedText (idx + 3)"
  have j: "idx + 3 \<le> ?j" by (rule skipWs_ge)
  show ?thesis
  proof (cases "findMatching maskedText ?j (CHR ''('') (CHR '')'')")
    case None
    then show ?thesis by (simp add: sumStep_def Let_def)
  next
    case (Some closeParen)
    from findMatching_bounds[OF Some] j have c: "idx < closeParen" by simp
    show ?thesis
    proof (cases "findBody maskedText closeParen")
      case None
      with Some c show ?thesis by (simp add: sumStep_def Let_def split: option.splits)
    next
      case body: (Some b)
      obtain bodyEnd bodyText where b: "b = (bodyEnd, bodyText)" by (cases b)
      from findBody_bounds[OF body[unfolded b]] c have "idx < bodyEnd + 1" by simp
      with Some body b c show ?thesis
        by (simp add: sumStep_def Let_def sumFromBody_next split: option.splits)
    qed
  qed
qed

lemma sumStep_next: "sumStep maskedText idx = (nxt, pushed) \<Longrightarrow> idx < nxt"
  using sumStep_advances[of idx maskedText] by simp

text \<open>The \<open>while\<close> loop of \<open>findForLoopSummations\<close>.\<close>

function findForLoopSummationsLoop :: "string \<Rightarrow> nat \<Rightarrow> SumMatch list \<Rightarrow> SumMatch list" where
  "findForLoopSummationsLoop maskedText i results =
     (if \<not> i < length maskedText then results
      else
        case indexOfFrom maskedText ''for'' i of
          None \<Rightarrow> results
        | Some idx \<Rightarrow>
            (case sumStep maskedText idx of
               (next, pushed) \<Rightarrow>
                 findForLoopSummationsLoop maskedText next
                   (results @ (case pushed of None \<Rightarrow> [] | Some m \<Rightarrow> [m]))))"
  by pat_completeness auto
termination
proof (relation "measure (\<lambda>(maskedText, i, results). length maskedText - i)", goal_cases)
  case 1
  show ?case by simp
next
  case 2
  then show ?case
    by (auto dest!: indexOfFrom_ge sumStep_next[OF sym])
qed

declare findForLoopSummationsLoop.simps [simp del]

definition findForLoopSummations :: "string \<Rightarrow> string \<Rightarrow> SumMatch list" where
  "findForLoopSummations text maskedText = findForLoopSummationsLoop maskedText 0 []"

section \<open>The Generic-Expression detector (findExpressions)\<close>

definition isStartChar :: "char \<Rightarrow> bool" where
  "isStartChar ch \<longleftrightarrow>
     (CHR ''A'' \<le> ch \<and> ch \<le> CHR ''Z'') \<or> (CHR ''a'' \<le> ch \<and> ch \<le> CHR ''z'') \<or>
     (CHR ''0'' \<le> ch \<and> ch \<le> CHR ''9'') \<or> ch \<in> set ''_({[+-''"

definition isBoundaryChar :: "char option \<Rightarrow> bool" where
  "isBoundaryChar c \<longleftrightarrow> \<not> testOpt (\<lambda>ch. isWordChar ch \<or> ch = CHR ''.'') c"

fun isCallOrNew :: "Expr \<Rightarrow> bool" where
  "isCallOrNew (Call callee as) = True"
| "isCallOrNew (New ctor as) = True"
| "isCallOrNew e = False"

text \<open>\<open>trimEnd\<close> is the loop that trims trailing whitespace from the matched end.\<close>

function trimEnd :: "string \<Rightarrow> nat \<Rightarrow> nat \<Rightarrow> nat" where
  "trimEnd maskedText i end =
     (if end > i \<and> testOpt isSpace (charAt maskedText (end - 1)) then trimEnd maskedText i (end - 1)
      else end)"
  by pat_completeness auto
termination
  by (relation "measure (\<lambda>(maskedText, i, end). end)") auto

declare trimEnd.simps [simp del]

record ExpressionMatch =
  expr_range :: "nat \<times> nat"
  expr_exprText :: string
  expr_expr :: Expr
  expr_latex :: string
  expr_inlineText :: string

text \<open>
  One iteration of the loop of \<open>findExpressions\<close> at position \<open>i\<close>: the value of
  \<open>i\<close> for the next iteration and the match that the iteration pushes, if any.
\<close>

definition exprStep :: "string \<Rightarrow> string \<Rightarrow> nat \<Rightarrow> nat \<times> ExpressionMatch option" where
  "exprStep text maskedText i =
     (if \<not> testOpt isStartChar (charAt maskedText i) then (i + 1, None)
      else if i > 0 \<and> \<not> isBoundaryChar (charAt maskedText (i - 1)) then (i + 1, None)
      else
        case parseExpressionAt maskedText i of
          None \<Rightarrow> (i + 1, None)
        | Some (expr, parsedEnd) \<Rightarrow>
            if isCallOrNew expr then (i + 1, None)
            else
              let end = trimEnd maskedText i parsedEnd in
              if end \<le> i then (i + 1, None)
              else if CHR ''^'' \<in> set (slice maskedText i end) then (end, None)
              else if end < length maskedText \<and> \<not> isBoundaryChar (charAt maskedText end)
                then (i + 1, None)
              else if \<not> exprContainsOperator expr then (max end (i + 1), None)
              else
                (end, Some \<lparr>expr_range = (i, end), expr_exprText = slice text i end,
                            expr_expr = expr, expr_latex = exprToLatex expr,
                            expr_inlineText = exprToInlineText expr\<rparr>))"

lemma exprStep_advances: "i < fst (exprStep text maskedText i)"
proof (cases "parseExpressionAt maskedText i")
  case None
  then show ?thesis by (simp add: exprStep_def)
next
  case (Some p)
  obtain expr parsedEnd where p: "p = (expr, parsedEnd)" by (cases p)
  show ?thesis
    using Some p by (simp add: exprStep_def Let_def)
qed

lemma exprStep_next: "exprStep text maskedText i = (nxt, pushed) \<Longrightarrow> i < nxt"
  using exprStep_advances[of i "text" maskedText] by simp

function findExpressionsLoop ::
  "string \<Rightarrow> string \<Rightarrow> nat \<Rightarrow> nat \<Rightarrow> ExpressionMatch list \<Rightarrow> ExpressionMatch list" where
  "findExpressionsLoop text maskedText maxMatches i results =
     (if \<not> (i < length maskedText \<and> length results < maxMatches) then results
      else
        case exprStep text maskedText i of
          (next, pushed) \<Rightarrow>
            findExpressionsLoop text maskedText maxMatches next
              (results @ (case pushed of None \<Rightarrow> [] | Some m \<Rightarrow> [m])))"
  by pat_completeness auto
termination
proof (relation "measure (\<lambda>(text, maskedText, maxMatches, i, results). length maskedText - i)",
    goal_cases)
  case 1
  show ?case by simp
next
  case 2
  then show ?case
    by (auto dest!: exprStep_next[OF sym])
qed

declare findExpressionsLoop.simps [simp del]

definition findExpressions :: "string \<Rightarrow> string \<Rightarrow> nat \<Rightarrow> ExpressionMatch list" where
  "findExpressions text maskedText maxMatches = findExpressionsLoop text maskedText maxMatches 0 []"


section \<open>The overlap resolver (extension.ts)\<close>

text \<open>
  \<open>Position\<close> and \<open>Range\<close> are the editor's classes, which are not part of the
  repository; \<open>isBefore\<close>, \<open>isAfter\<close>, \<open>Position.Max\<close>, \<open>Position.Min\<close>,
  \<open>Range.intersection\<close> and \<open>Range.contains\<close> are modelled after the editor's
  documented behaviour: the intersection of two ranges is the range from the later start to
  the earlier end, and is undefined only when that start is after that end.
  \<open>Array.prototype.sort\<close> is stable; for a comparison function that is a consistent
  order, as \<open>compareMatches\<close> is, every stable sort gives the same array, and the model
  sorts by insertion.
\<close>

record Position =
  pos_line :: nat
  pos_character :: nat

record Range =
  range_start :: Position
  range_end :: Position

definition isBefore :: "Position \<Rightarrow> Position \<Rightarrow> bool" where
  "isBefore p other \<longleftrightarrow>
     (if pos_line p < pos_line other then True
      else if pos_line other < pos_line p then False
      else pos_character p < pos_character other)"

definition isAfter :: "Position \<Rightarrow> Position \<Rightarrow> bool" where
  "isAfter p other \<longleftrightarrow> \<not> (p = other \<or> isBefore p other)"

definition positionMax :: "Position \<Rightarrow> Position \<Rightarrow> Position" where
  "positionMax a b = (if isAfter b a then b else a)"

definition positionMin :: "Position \<Rightarrow> Position \<Rightarrow> Position" where
  "positionMin a b = (if isBefore b a then b else a)"

definition intersection :: "Range \<Rightarrow> Range \<Rightarrow> Range option" where
  "intersection this other =
     (let start = positionMax (range_start other) (range_start this);
          end = positionMin (range_end other) (range_end this)
      in if isAfter start end then None else Some \<lparr>range_start = start, range_end = end\<rparr>)"

definition containsPosition :: "Range \<Rightarrow> Position \<Rightarrow> bool" where
  "containsPosition this p \<longleftrightarrow> \<not> (isBefore p (range_start this) \<or> isBefore (range_end this) p)"

definition containsRange :: "Range \<Rightarrow> Range \<Rightarrow> bool" where
  "containsRange this r \<longleftrightarrow> containsPosition this (range_start r) \<and> containsPosition this (range_end r)"

datatype AnyMatch =
    AnyDivision Range string string
  | AnyPow Range string string
  | AnyExpr Range string string
  | AnySum Range string string
  | AnyMap Range string string

fun rangeOf :: "AnyMatch \<Rightarrow> Range" where
  "rangeOf (AnyDivision r numerator denominator) = r"
| "rangeOf (AnyPow r latex inlineText) = r"
| "rangeOf (AnyExpr r latex inlineText) = r"
| "rangeOf (AnySum r latex inlineText) = r"
| "rangeOf (AnyMap r latex inlineText) = r"

definition compareMatches :: "AnyMatch \<Rightarrow> AnyMatch \<Rightarrow> int" where
  "compareMatches a b =
     (let aStart = range_start (rangeOf a); bStart = range_start (rangeOf b);
          aEnd = range_end (rangeOf a); bEnd = range_end (rangeOf b)
      in
        if pos_line aStart \<noteq> pos_line bStart then int (pos_line aStart) - int (pos_line bStart)
        else if pos_character aStart \<noteq> pos_character bStart
          then int (pos_character aStart) - int (pos_character bStart)
        else if pos_line aEnd \<noteq> pos_line bEnd then int (pos_line bEnd) - int (pos_line aEnd)
        else int (pos_character bEnd) - int (pos_character aEnd))"

fun insertBy :: "('a \<Rightarrow> 'a \<Rightarrow> int) \<Rightarrow> 'a \<Rightarrow> 'a list \<Rightarrow> 'a list" where
  "insertBy cmp x [] = [x]"
| "insertBy cmp x (y # ys) = (if cmp x y \<le> 0 then x # y # ys else y # insertBy cmp x ys)"

definition sortBy :: "('a \<Rightarrow> 'a \<Rightarrow> int) \<Rightarrow> 'a list \<Rightarrow> 'a list" where
  "sortBy cmp xs = foldr (insertBy cmp) xs []"

text \<open>
  \<open>overlapsKept\<close> is the inner loop over \<open>kept\<close>, which sets \<open>overlaps\<close> and
  breaks at the first kept match whose range intersects the candidate's; \<open>pickLoop\<close> is
  the outer loop over the sorted items.
\<close>

fun overlapsKept :: "AnyMatch list \<Rightarrow> AnyMatch \<Rightarrow> bool" where
  "overlapsKept [] candidate = False"
| "overlapsKept (k # kept) candidate =
     (if intersection (rangeOf k) (rangeOf candidate) \<noteq> None then
        (if containsRange (rangeOf k) (rangeOf candidate) then True else True)
      else overlapsKept kept candidate)"

fun pickLoop :: "AnyMatch list \<Rightarrow> AnyMatch list \<Rightarrow> AnyMatch list" where
  "pickLoop kept [] = kept"
| "pickLoop kept (candidate # items) =
     pickLoop (if \<not> overlapsKept kept candidate then kept @ [candidate] else kept) items"

definition pickLargestNonOverlapping :: "AnyMatch list \<Rightarrow> AnyMatch list" where
  "pickLargestNonOverlapping matches = pickLoop [] (sortBy compareMatches matches)"

text \<open>The range from offset \<open>a\<close> to offset \<open>b\<close> of a one-line text.\<close>

definition offsetRange :: "nat \<Rightarrow> nat \<Rightarrow> Range" where
  "offsetRange a b = \<lparr>range_start = \<lparr>pos_line = 0, pos_character = a\<rparr>,
                      range_end = \<lparr>pos_line = 0, pos_character = b\<rparr>\<rparr>"


section \<open>The masker, read from left to right\<close>

text \<open>
  \<open>maskFrom state escape rest\<close> is what the loop of \<open>maskJavaNonCode\<close> writes for the
  unread rest of the text when it arrives there in the given state. It is the same loop,
  with the position replaced by the rest of the text, and \<open>maskLoop_maskFrom\<close> proves
  that the loop computes it.
\<close>

definition headOpt :: "'a list \<Rightarrow> 'a option" where
  "headOpt xs = (case xs of [] \<Rightarrow> None | x # _ \<Rightarrow> Some x)"

fun maskFrom :: "ScanState \<Rightarrow> bool \<Rightarrow> string \<Rightarrow> string" where
  "maskFrom state escape [] = []"
| "maskFrom state escape (ch # rest) =
     (let next = headOpt rest; next2 = headOpt (drop 1 rest) in
      case state of
        normal \<Rightarrow>
          if ch = CHR ''/'' \<and> next = Some CHR ''/'' then
            blank # blank # maskFrom lineComment escape (drop 1 rest)
          else if ch = CHR ''/'' \<and> next = Some CHR ''*'' then
            blank # blank # maskFrom blockComment escape (drop 1 rest)
          else if ch = CHR 0x22 then
            (if next = Some CHR 0x22 \<and> next2 = Some CHR 0x22 then
               blank # blank # blank # maskFrom textBlock escape (drop 2 rest)
             else blank # maskFrom stringLit False rest)
          else if ch = CHR 0x27 then blank # maskFrom charLit False rest
          else ch # maskFrom normal escape rest
      | lineComment \<Rightarrow>
          if isNewline ch then ch # maskFrom normal escape rest
          else blank # maskFrom lineComment escape rest
      | blockComment \<Rightarrow>
          if ch = CHR ''*'' \<and> next = Some CHR ''/'' then
            blank # blank # maskFrom normal escape (drop 1 rest)
          else (if isNewline ch then ch else blank) # maskFrom blockComment escape rest
      | stringLit \<Rightarrow>
          if isNewline ch then ch # maskFrom normal False rest
          else if escape then blank # maskFrom stringLit False rest
          else if ch = CHR 0x5C then blank # maskFrom stringLit True rest
          else if ch = CHR 0x22 then blank # maskFrom normal escape rest
          else blank # maskFrom stringLit escape rest
      | charLit \<Rightarrow>
          if isNewline ch then ch # maskFrom normal False rest
          else if escape then blank # maskFrom charLit False rest
          else if ch = CHR 0x5C then blank # maskFrom charLit True rest
          else if ch = CHR 0x27 then blank # maskFrom normal escape rest
          else blank # maskFrom charLit escape rest
      | textBlock \<Rightarrow>
          if ch = CHR 0x22 \<and> next = Some CHR 0x22 \<and> next2 = Some CHR 0x22 then
            blank # blank # blank # maskFrom normal escape (drop 2 rest)
          else (if isNewline ch then ch else blank) # maskFrom textBlock escape rest)"

lemma headOpt_drop: "headOpt (drop n text) = charAt text n"
  by (cases "n < length text") (simp_all add: headOpt_def charAt_def Cons_nth_drop_Suc[symmetric])

lemma length_setAt: "i < length out \<Longrightarrow> length (setAt out i c) = length out"
  by (simp add: setAt_def)

lemma take_setAt1: "i < length out \<Longrightarrow> take (Suc i) (setAt out i c) = take i out @ [Some c]"
  by (simp add: setAt_def take_Suc_conv_app_nth)

lemma take_setAt_above: "i < j \<Longrightarrow> j < length out \<Longrightarrow> take (Suc i) (setAt out j c) = take (Suc i) out"
  by (simp add: setAt_def)

lemma take_setAt2:
  "Suc i < length out \<Longrightarrow>
   take (Suc (Suc i)) (setAt (setAt out i a) (Suc i) b) = take i out @ [Some a, Some b]"
  by (simp add: setAt_def take_Suc_conv_app_nth nth_list_update)

lemma take_setAt3:
  "Suc (Suc i) < length out \<Longrightarrow>
   take (Suc (Suc (Suc i))) (setAt (setAt (setAt out i a) (Suc i) b) (Suc (Suc i)) c) =
     take i out @ [Some a, Some b, Some c]"
  by (simp add: setAt_def take_Suc_conv_app_nth nth_list_update)

lemma maskLoop_maskFrom:
  "i \<le> length t \<Longrightarrow> length out = length t \<Longrightarrow>
   maskLoop t i state escape out =
     take i out @ map Some (maskFrom state escape (drop i t))"
proof (induction "length t - i" arbitrary: i state escape out rule: less_induct)
  case less
  note IH = less.hyps
  show ?case
  proof (cases "i < length t")
    case False
    with less.prems show ?thesis by (simp add: maskLoop.simps)
  next
    case True
    have d: "drop i t = t ! i # drop (Suc i) t"
      using True by (simp add: Cons_nth_drop_Suc)
    have e1: "drop (Suc 0) (drop (Suc i) t) = drop (Suc (Suc i)) t" by simp
    have e2: "drop 2 (drop (Suc i) t) = drop (Suc (Suc (Suc i))) t" by simp
    have step1: "maskLoop t (Suc i) st esc (setAt out i c) =
        take i out @ Some c # map Some (maskFrom st esc (drop (Suc i) t))" for st esc c
      using True less.prems IH[of "Suc i" "setAt out i c" st esc]
      by (simp add: take_setAt1 length_setAt)
    have step2: "maskLoop t (Suc (Suc i)) st esc (setAt (setAt out i a) (Suc i) b) =
        take i out @ Some a # Some b # map Some (maskFrom st esc (drop (Suc (Suc i)) t))"
      if "charAt t (Suc i) \<noteq> None" for st esc a b
    proof -
      from that have "Suc i < length t" by (simp add: charAt_def split: if_splits)
      then show ?thesis
        using less.prems IH[of "Suc (Suc i)" "setAt (setAt out i a) (Suc i) b" st esc]
        by (simp add: take_setAt2 length_setAt)
    qed
    have step3: "maskLoop t (Suc (Suc (Suc i))) st esc
          (setAt (setAt (setAt out i a) (Suc i) b) (Suc (Suc i)) c) =
        take i out @ Some a # Some b # Some c #
          map Some (maskFrom st esc (drop (Suc (Suc (Suc i))) t))"
      if "charAt t (Suc (Suc i)) \<noteq> None" for st esc a b c
    proof -
      from that have "Suc (Suc i) < length t" by (simp add: charAt_def split: if_splits)
      then show ?thesis
        using less.prems
          IH[of "Suc (Suc (Suc i))" "setAt (setAt (setAt out i a) (Suc i) b) (Suc (Suc i)) c" st esc]
        by (simp add: take_setAt3 length_setAt)
    qed
    show ?thesis
      using True
      apply (subst maskLoop.simps)
      apply (simp only: d maskFrom.simps Let_def headOpt_drop e1 e2 One_nat_def)
      apply (cases state; simp add: numeral_3_eq_3 step1 step2 step3)
      done
  qed
qed

lemma maskJavaNonCode_maskFrom: "maskJavaNonCode t = maskFrom normal False t"
  by (simp add: maskJavaNonCode_def maskLoop_maskFrom joinOut_def comp_def)


declare maskFrom.simps(2) [simp del]

lemma headOpt_simps [simp]: "headOpt [] = None" "headOpt (x # xs) = Some x"
  by (simp_all add: headOpt_def)

lemma headOpt_Some_iff: "headOpt xs = Some c \<longleftrightarrow> (\<exists>r. xs = c # r)"
  by (cases xs) auto

definition maskedAs :: "char \<Rightarrow> char \<Rightarrow> bool" where
  "maskedAs c m \<longleftrightarrow> (isNewline c \<longrightarrow> m = c) \<and> (m = blank \<or> m = c)"

lemma maskedAs_simps [simp]:
  "maskedAs c c" "\<not> isNewline c \<Longrightarrow> maskedAs c blank"
  by (simp_all add: maskedAs_def)

lemma not_isNewline_simps [simp]:
  "\<not> isNewline CHR ''/''" "\<not> isNewline CHR ''*''" "\<not> isNewline CHR 0x22"
  "\<not> isNewline CHR 0x27" "\<not> isNewline CHR 0x5C"
  by (simp_all add: isNewline_def)

lemma maskFrom_pointwise: "list_all2 maskedAs s (maskFrom state escape s)"
proof (induction "length s" arbitrary: s state escape rule: less_induct)
  case less
  show ?case
  proof (cases s)
    case Nil
    then show ?thesis by simp
  next
    case (Cons ch rest)
    have IH: "list_all2 maskedAs s' (maskFrom st esc s')" if "length s' \<le> length rest" for s' st esc
      using less.hyps[of s' st esc] that Cons by simp
    have IH1: "list_all2 maskedAs rest (c1 # maskFrom st esc (drop (Suc 0) rest))"
      if "headOpt rest = Some c" "maskedAs c c1" for c c1 st esc
      using that IH[of "drop (Suc 0) rest" st esc] by (auto simp: headOpt_Some_iff)
    have IH2: "list_all2 maskedAs rest (c1 # c2 # maskFrom st esc (drop 2 rest))"
      if "headOpt rest = Some c" "maskedAs c c1" "headOpt (drop (Suc 0) rest) = Some d" "maskedAs d c2"
      for c c1 d c2 st esc
      using that IH[of "drop 2 rest" st esc] by (auto simp: headOpt_Some_iff)
    show ?thesis
      unfolding Cons
      apply (subst maskFrom.simps(2))
      apply (cases state; simp add: Let_def IH IH1 IH2)
      done
  qed
qed


lemma maskFrom_normal_plain:
  "c \<noteq> CHR ''/'' \<Longrightarrow> c \<noteq> CHR 0x22 \<Longrightarrow> c \<noteq> CHR 0x27 \<Longrightarrow>
   maskFrom normal e (c # xs) = c # maskFrom normal e xs"
  by (simp add: maskFrom.simps(2) Let_def)

lemma maskFrom_normal_blank [simp]:
  "maskFrom normal e (blank # xs) = blank # maskFrom normal e xs"
  by (simp add: maskFrom_normal_plain blank_def)

lemma maskFrom_normal_newline [simp]:
  "isNewline c \<Longrightarrow> maskFrom normal e (c # xs) = c # maskFrom normal e xs"
  by (rule maskFrom_normal_plain) (auto simp: isNewline_def)

lemma maskFrom_normal_slash:
  "headOpt xs \<noteq> Some CHR ''/'' \<Longrightarrow> headOpt xs \<noteq> Some CHR ''*'' \<Longrightarrow>
   maskFrom normal e (CHR ''/'' # xs) = CHR ''/'' # maskFrom normal e xs"
  by (simp add: maskFrom.simps(2) Let_def)

lemma headOpt_maskFrom:
  "headOpt (maskFrom state escape xs) = Some c \<Longrightarrow> c = blank \<or> headOpt xs = Some c"
  using maskFrom_pointwise[of xs state escape]
  by (cases xs) (auto simp: headOpt_Some_iff list_all2_Cons1 maskedAs_def)

lemma headOpt_maskFrom_neq:
  "c \<noteq> blank \<Longrightarrow> headOpt xs \<noteq> Some c \<Longrightarrow> headOpt (maskFrom state escape xs) \<noteq> Some c"
  using headOpt_maskFrom by blast

lemma maskFrom_idem:
  "maskFrom normal e (maskFrom state escape s) = maskFrom state escape s"
proof (induction "length s" arbitrary: s state escape e rule: less_induct)
  case less
  show ?case
  proof (cases s)
    case Nil
    then show ?thesis by simp
  next
    case (Cons ch rest)
    have IH: "maskFrom normal e' (maskFrom st esc s') = maskFrom st esc s'"
      if "length s' \<le> length rest" for s' st esc e'
      using less.hyps[of s' e' st esc] that Cons by simp
    have plain: "maskFrom normal e (ch # maskFrom normal escape rest) =
        ch # maskFrom normal escape rest"
      if "ch \<noteq> CHR 0x22" "ch \<noteq> CHR 0x27"
        "ch = CHR ''/'' \<longrightarrow> headOpt rest \<noteq> Some CHR ''*''"
        "ch = CHR ''/'' \<longrightarrow> headOpt rest \<noteq> Some CHR ''/''"
    proof (cases "ch = CHR ''/''")
      case True
      with that show ?thesis
        by (simp add: maskFrom_normal_slash headOpt_maskFrom_neq blank_def IH)
    next
      case False
      with that show ?thesis
        by (simp add: maskFrom_normal_plain IH)
    qed
    show ?thesis
      unfolding Cons
      apply (simp only: maskFrom.simps(2)[of state escape ch rest])
      apply (cases state; simp add: Let_def IH plain)
      done
  qed
qed


section \<open>Properties of the overlap resolver\<close>

abbreviation (input) sortsBefore :: "AnyMatch \<Rightarrow> AnyMatch \<Rightarrow> bool" where
  "sortsBefore a b \<equiv> compareMatches a b \<le> 0"

lemma sortsBefore_total: "sortsBefore a b \<or> sortsBefore b a"
  by (auto simp: compareMatches_def Let_def)

lemma sortsBefore_trans: "sortsBefore a b \<Longrightarrow> sortsBefore b c \<Longrightarrow> sortsBefore a c"
  by (auto simp: compareMatches_def Let_def split: if_splits)

lemma set_insertBy [simp]: "set (insertBy cmp x ys) = insert x (set ys)"
  by (induction ys) auto

lemma mset_insertBy [simp]: "mset (insertBy cmp x ys) = add_mset x (mset ys)"
  by (induction ys) auto

lemma mset_sortBy [simp]: "mset (sortBy cmp xs) = mset xs"
  by (induction xs) (auto simp: sortBy_def)

lemma set_sortBy [simp]: "set (sortBy cmp xs) = set xs"
  by (induction xs) (auto simp: sortBy_def)

lemma sorted_insertBy:
  "sorted_wrt sortsBefore ys \<Longrightarrow> sorted_wrt sortsBefore (insertBy compareMatches x ys)"
proof (induction ys)
  case Nil
  then show ?case by simp
next
  case (Cons y ys)
  show ?case
  proof (cases "sortsBefore x y")
    case True
    with Cons.prems show ?thesis by (auto intro: sortsBefore_trans)
  next
    case False
    then have "sortsBefore y x" using sortsBefore_total by blast
    with False Cons show ?thesis by auto
  qed
qed

lemma sorted_sortBy: "sorted_wrt sortsBefore (sortBy compareMatches xs)"
  by (induction xs) (auto simp: sortBy_def intro: sorted_insertBy[unfolded sortBy_def])

lemma overlapsKept_iff:
  "overlapsKept kept c \<longleftrightarrow> (\<exists>k \<in> set kept. intersection (rangeOf k) (rangeOf c) \<noteq> None)"
  by (induction kept) auto

lemma pickLoop_keeps: "set kept \<subseteq> set (pickLoop kept items)"
proof (induction items arbitrary: kept)
  case Nil
  show ?case by simp
next
  case (Cons c items)
  have "set kept \<subseteq> set (if \<not> overlapsKept kept c then kept @ [c] else kept)" by auto
  also have "\<dots> \<subseteq> set (pickLoop (if \<not> overlapsKept kept c then kept @ [c] else kept) items)"
    by (rule Cons.IH)
  finally show ?case by simp
qed

lemma pickLoop_mset: "mset (pickLoop kept items) \<subseteq># mset kept + mset items"
proof (induction items arbitrary: kept)
  case Nil
  show ?case by simp
next
  case (Cons c items)
  show ?case
  proof (cases "overlapsKept kept c")
    case True
    have "mset (pickLoop kept items) \<subseteq># mset kept + mset items" by (rule Cons.IH)
    also have "\<dots> \<subseteq># mset kept + mset (c # items)" by simp
    finally show ?thesis using True by simp
  next
    case False
    have "mset (pickLoop (kept @ [c]) items) \<subseteq># mset (kept @ [c]) + mset items" by (rule Cons.IH)
    then show ?thesis using False by simp
  qed
qed

lemma pickLoop_disjoint:
  "sorted_wrt (\<lambda>a b. intersection (rangeOf a) (rangeOf b) = None) kept \<Longrightarrow>
   sorted_wrt (\<lambda>a b. intersection (rangeOf a) (rangeOf b) = None) (pickLoop kept items)"
  by (induction items arbitrary: kept) (auto simp: sorted_wrt_append overlapsKept_iff)

lemma pickLoop_dropped:
  "sorted_wrt sortsBefore items \<Longrightarrow> \<forall>k \<in> set kept. \<forall>c \<in> set items. sortsBefore k c \<Longrightarrow> m \<in> set items \<Longrightarrow>
   m \<in> set (pickLoop kept items) \<or>
   (\<exists>k \<in> set (pickLoop kept items). intersection (rangeOf k) (rangeOf m) \<noteq> None \<and> sortsBefore k m)"
proof (induction items arbitrary: kept)
  case Nil
  then show ?case by simp
next
  case (Cons c items)
  let ?kept = "if \<not> overlapsKept kept c then kept @ [c] else kept"
  have res: "pickLoop kept (c # items) = pickLoop ?kept items" by simp
  show ?case
  proof (cases "m \<in> set items")
    case True
    have "\<forall>k \<in> set ?kept. \<forall>c' \<in> set items. sortsBefore k c'"
      using Cons.prems(1,2) by auto
    with Cons.IH[of ?kept] Cons.prems(1) True show ?thesis
      unfolding res by simp
  next
    case False
    with Cons.prems(3) have m: "m = c" by simp
    show ?thesis
    proof (cases "overlapsKept kept c")
      case True
      then obtain k where k: "k \<in> set kept" "intersection (rangeOf k) (rangeOf c) \<noteq> None"
        by (auto simp: overlapsKept_iff)
      with Cons.prems(2) have "sortsBefore k c" by simp
      moreover have "k \<in> set (pickLoop ?kept items)" using k(1) True pickLoop_keeps by auto
      ultimately show ?thesis unfolding res m using k(2) by blast
    next
      case False
      then have "c \<in> set (pickLoop ?kept items)" using pickLoop_keeps[of "kept @ [c]" items] by auto
      then show ?thesis unfolding res m by simp
    qed
  qed
qed

text \<open>
  Three matches of which the first sorts strictly before the two others, and the second
  strictly before the third, are sorted into that order whatever the order they come in.
\<close>

lemma sorted_three:
  assumes s: "sorted_wrt sortsBefore l" and m: "mset l = {#x, y, z#}"
    and o: "\<not> sortsBefore y x" "\<not> sortsBefore z x" "\<not> sortsBefore z y"
  shows "l = [x, y, z]"
proof -
  from m have "length l = 3" by (metis size_mset size_add_mset size_empty numeral_3_eq_3)
  then obtain a b c where l: "l = [a, b, c]"
    by (auto simp: numeral_3_eq_3 length_Suc_conv)
  from s l have ab: "sortsBefore a b" and ac: "sortsBefore a c" and bc: "sortsBefore b c" by auto
  from m l have "{#a, b, c#} = {#x, y, z#}" by simp
  then have eq: "mset [a, b, c] = mset [x, y, z]" by simp
  from o have d: "x \<noteq> y" "x \<noteq> z" "y \<noteq> z" using sortsBefore_total by auto
  from eq have "set [a, b, c] = set [x, y, z]" by (rule mset_eq_setD)
  then have mem: "a \<in> {x, y, z}" "b \<in> {x, y, z}" "c \<in> {x, y, z}" by auto
  from eq d have "distinct [a, b, c]"
    by (metis distinct.simps(2) distinct_singleton list.set(1) list.set(2) mset_eq_imp_distinct_iff insert_iff empty_iff)
  then have dd: "a \<noteq> b" "a \<noteq> c" "b \<noteq> c" by auto
  show ?thesis
    using mem dd ab ac bc o l by auto
qed

lemma pickLargestNonOverlapping_three:
  assumes "rangeOf x = offsetRange 0 10" "rangeOf y = offsetRange 2 6" "rangeOf z = offsetRange 12 20"
    and "mset ms = {#x, y, z#}"
  shows "pickLargestNonOverlapping ms = [x, z]"
proof -
  have o: "\<not> sortsBefore y x" "\<not> sortsBefore z x" "\<not> sortsBefore z y"
    using assms(1-3) by (simp_all add: compareMatches_def offsetRange_def Let_def)
  have "sortBy compareMatches ms = [x, y, z]"
    by (rule sorted_three[OF sorted_sortBy _ o]) (simp add: assms(4))
  then show ?thesis
    using assms(1-3)
    by (simp add: pickLargestNonOverlapping_def offsetRange_def
        intersection_def positionMax_def positionMin_def isAfter_def isBefore_def Let_def)
qed

section \<open>Notions of the specification and its example texts\<close>

text \<open>The nodes of an expression tree: the expression itself and every expression below it.\<close>

fun nodes :: "Expr \<Rightarrow> Expr list" where
  "nodes (Group bracket e) = Group bracket e # nodes e"
| "nodes (Unary op e) = Unary op e # nodes e"
| "nodes (Binary op l r) = Binary op l r # nodes l @ nodes r"
| "nodes (Member obj m) = Member obj m # nodes obj"
| "nodes (Index obj idx) = Index obj idx # nodes obj @ nodes idx"
| "nodes (Call callee as) = Call callee as # nodes callee @ concat (map nodes as)"
| "nodes (New ctor as) = New ctor as # nodes ctor @ concat (map nodes as)"
| "nodes e = [e]"

fun isBinary :: "Expr \<Rightarrow> bool" where
  "isBinary (Binary op l r) = True"
| "isBinary e = False"

text \<open>Trees built purely from \<open>Number\<close>, \<open>Identifier\<close> and \<open>Binary\<close> nodes, and the
  texts at their leaves.\<close>

fun isArithmeticTree :: "Expr \<Rightarrow> bool" where
  "isArithmeticTree (Number v) = True"
| "isArithmeticTree (Ident name) = True"
| "isArithmeticTree (Binary op l r) = (isArithmeticTree l \<and> isArithmeticTree r)"
| "isArithmeticTree e = False"

fun leafTexts :: "Expr \<Rightarrow> string list" where
  "leafTexts (Number v) = [v]"
| "leafTexts (Ident name) = [name]"
| "leafTexts (Binary op l r) = leafTexts l @ leafTexts r"
| "leafTexts e = []"

text \<open>
  In the data model a \<open>Number\<close> node holds the text of a number literal and an
  \<open>Identifier\<close> node holds a dotted name. \<open>parseNumber\<close> returns a non-empty text
  of digits and dots, and \<open>parseQualifiedIdent\<close> a non-empty text of identifier
  characters and dots: \<open>isLiteralText\<close> and \<open>isDottedName\<close> hold of the texts made
  of these characters, and \<open>wellFormed\<close> of the trees whose \<open>Number\<close> and
  \<open>Identifier\<close> nodes all hold such texts.
\<close>

definition isLiteralText :: "string \<Rightarrow> bool" where
  "isLiteralText s \<longleftrightarrow> s \<noteq> [] \<and> list_all (\<lambda>c. isDigit c \<or> c = CHR ''.'') s"

definition isDottedName :: "string \<Rightarrow> bool" where
  "isDottedName s \<longleftrightarrow> s \<noteq> [] \<and> list_all (\<lambda>c. isIdentPart c \<or> c = CHR ''.'') s"

fun wellFormed :: "Expr \<Rightarrow> bool" where
  "wellFormed (Number v) = isLiteralText v"
| "wellFormed (Ident name) = isDottedName name"
| "wellFormed (Raw t) = True"
| "wellFormed (Group bracket e) = wellFormed e"
| "wellFormed (Unary op e) = wellFormed e"
| "wellFormed (Binary op l r) = (wellFormed l \<and> wellFormed r)"
| "wellFormed (Member obj m) = wellFormed obj"
| "wellFormed (Index obj idx) = (wellFormed obj \<and> wellFormed idx)"
| "wellFormed (Call callee as) = (wellFormed callee \<and> list_all wellFormed as)"
| "wellFormed (New ctor as) = (wellFormed ctor \<and> list_all wellFormed as)"

text \<open>The texts of the specification's examples.\<close>

definition squaresLoop :: string where
  "squaresLoop = ''for (int i = 0; i < n; i++) { sum += i * i; }''"

definition descendingLoop :: string where
  "descendingLoop = ''for (i = n; i > 0; i--) { sum += i; }''"

definition stepTenLoop :: string where
  "stepTenLoop = ''for (int i = 0; i < n; i += 10) { sum += i; }''"

definition powLine :: string where
  "powLine = ''auto x = 3/4*Math.pow(9,2)''"

definition powThreeArgs :: string where
  "powThreeArgs = ''Math.pow(a, b, c)''"

definition powThreeArgsLine :: string where
  "powThreeArgsLine = ''double r = Math.pow(a, b, c);''"

section \<open>Properties of the detectors and the renderers\<close>

lemma Position_eq_iff:
  "(p :: Position) = q \<longleftrightarrow> pos_line p = pos_line q \<and> pos_character p = pos_character q"
  by (cases p, cases q) simp

lemma sortsBefore_positions:
  "compareMatches k m \<le> 0 \<longleftrightarrow>
     isBefore (range_start (rangeOf k)) (range_start (rangeOf m)) \<or>
     (range_start (rangeOf k) = range_start (rangeOf m) \<and>
      \<not> isBefore (range_end (rangeOf k)) (range_end (rangeOf m)))"
  by (auto simp: compareMatches_def Let_def isBefore_def Position_eq_iff)

lemma exprContainsOperator_nodes:
  "exprContainsOperator e \<longleftrightarrow> (\<exists>n \<in> set (nodes e). isBinary n)"
  by (induction e) auto

lemma exprStep_pushed:
  assumes "exprStep text maskedText i = (nxt, Some m)"
  shows "\<not> isCallOrNew (expr_expr m) \<and>
         CHR ''^'' \<notin> set (slice maskedText (fst (expr_range m)) (snd (expr_range m))) \<and>
         exprContainsOperator (expr_expr m)"
proof (cases "parseExpressionAt maskedText i")
  case None
  with assms show ?thesis by (simp add: exprStep_def split: if_splits)
next
  case (Some p)
  obtain expr parsedEnd where p: "p = (expr, parsedEnd)" by (cases p)
  from assms Some p show ?thesis
    by (auto simp: exprStep_def Let_def split: if_splits)
qed

lemma findExpressionsLoop_invariant:
  assumes "\<forall>m \<in> set results. P m"
    and "\<And>i nxt m. exprStep text maskedText i = (nxt, Some m) \<Longrightarrow> P m"
  shows "\<forall>m \<in> set (findExpressionsLoop text maskedText maxMatches i results). P m"
  using assms(1)
proof (induction "length maskedText - i" arbitrary: i results rule: less_induct)
  case less
  show ?case
  proof (cases "i < length maskedText \<and> length results < maxMatches")
    case False
    then show ?thesis using less.prems by (subst findExpressionsLoop.simps) simp
  next
    case True
    obtain nxt pushed where st: "exprStep text maskedText i = (nxt, pushed)"
      by (cases "exprStep text maskedText i")
    have adv: "i < nxt" using st by (rule exprStep_next)
    have "\<forall>m \<in> set (results @ (case pushed of None \<Rightarrow> [] | Some m \<Rightarrow> [m])). P m"
      using less.prems assms(2)[of i nxt] st by (auto split: option.splits)
    moreover have "length maskedText - nxt < length maskedText - i"
      using adv True by linarith
    ultimately
    have "\<forall>m \<in> set (findExpressionsLoop text maskedText maxMatches nxt
              (results @ (case pushed of None \<Rightarrow> [] | Some m \<Rightarrow> [m]))). P m"
      using less.hyps[of nxt] by blast
    then show ?thesis using True st by (subst findExpressionsLoop.simps) simp
  qed
qed

lemma escapeBackslash_not_Nil: "escapeBackslash c \<noteq> []"
  by (simp add: escapeBackslash_def)

lemma escapeSpecial_not_Nil: "escapeSpecial c \<noteq> []"
  by (simp add: escapeSpecial_def)

lemma caret_escapeBackslash: "CHR ''^'' \<in> set (escapeBackslash c) \<longleftrightarrow> c = CHR ''^''"
  by (auto simp: escapeBackslash_def backslash_def)

lemma caret_escapeSpecial: "CHR ''^'' \<in> set (escapeSpecial c) \<longleftrightarrow> c = CHR ''^''"
  by (auto simp: escapeSpecial_def backslash_def)

lemma escapeLatex_Nil_iff: "escapeLatex s = [] \<longleftrightarrow> s = []"
proof (cases s)
  case Nil
  then show ?thesis by (simp add: escapeLatex_def)
next
  case (Cons c cs)
  obtain d ds where "escapeBackslash c = d # ds"
    using escapeBackslash_not_Nil[of c] by (cases "escapeBackslash c") auto
  then show ?thesis
    using Cons escapeSpecial_not_Nil[of d] by (simp add: escapeLatex_def)
qed

lemma caret_escapeLatex: "CHR ''^'' \<in> set (escapeLatex s) \<longleftrightarrow> CHR ''^'' \<in> set s"
  by (simp add: escapeLatex_def caret_escapeBackslash caret_escapeSpecial)

lemma caret_binaryOpText: "CHR ''^'' \<notin> set (binaryOpText op)"
  by (cases op) simp_all

lemma inline_arithmetic:
  "isArithmeticTree e \<Longrightarrow> \<forall>s \<in> set (leafTexts e). s \<noteq> [] \<and> CHR ''^'' \<notin> set s \<Longrightarrow>
   exprToInlineText e \<noteq> [] \<and> CHR ''^'' \<notin> set (exprToInlineText e)"
  by (induction e rule: isArithmeticTree.induct)
     (auto simp: Let_def middleDot_def fractionSlash_def caret_binaryOpText)

lemma latex_arithmetic:
  "isArithmeticTree e \<Longrightarrow> \<forall>s \<in> set (leafTexts e). s \<noteq> [] \<and> CHR ''^'' \<notin> set s \<Longrightarrow>
   exprToLatex e \<noteq> [] \<and> CHR ''^'' \<notin> set (exprToLatex e)"
proof (induction e rule: isArithmeticTree.induct)
  case (3 op l r)
  then have l: "CHR ''^'' \<notin> set (exprToLatex l)" and r: "CHR ''^'' \<notin> set (exprToLatex r)"
    by auto
  have w: "CHR ''^'' \<notin> set (latexWrap x p)" if "CHR ''^'' \<notin> set (exprToLatex x)" for x p
    using that by (simp add: Let_def leftParen_def rightParen_def backslash_def)
  show ?case
    using l r w[OF l] w[OF r]
    by (cases op) (simp_all add: Let_def backslash_def caret_escapeLatex)
qed (simp_all add: escapeLatex_Nil_iff caret_escapeLatex)

text \<open>
  Every \<open>Number\<close> and \<open>Identifier\<close> node that the parser builds holds a text
  of \<open>parseNumber\<close> or of \<open>parseQualifiedIdent\<close>, so every tree that the parser
  returns is well formed.
\<close>

lemma skipWhile_holds: "j \<le> k \<Longrightarrow> k < skipWhile P t j \<Longrightarrow> P (t ! k) \<and> k < length t"
proof (induction P t j rule: skipWhile.induct)
  case (1 P t j)
  show ?case
  proof (cases "j < length t \<and> P (t ! j)")
    case True
    with 1 show ?thesis
      by (cases "k = j") (simp_all add: skipWhile.simps[of P t j])
  next
    case False
    with 1(2,3) show ?thesis by (simp add: skipWhile.simps[of P t j])
  qed
qed

lemma skipWhile_gt: "j < length t \<Longrightarrow> P (t ! j) \<Longrightarrow> j < skipWhile P t j"
  using skipWhile_ge[of "j + 1" P t] by (simp add: skipWhile.simps[of P t j])

lemma in_set_slice:
  assumes "c \<in> set (slice t a b)"
  obtains k where "a \<le> k" "k < b" "k < length t" "c = t ! k"
proof -
  from assms obtain n where n: "n < length (drop a (take b t))" "c = drop a (take b t) ! n"
    by (auto simp: slice_def in_set_conv_nth)
  then have l: "a + n < b" "a + n < length t" by auto
  then have "a \<le> length (take b t)" by simp
  then have "drop a (take b t) ! n = take b t ! (a + n)" by (rule nth_drop)
  with l n(2) have "c = t ! (a + n)" by simp
  note l = l this
  then show ?thesis using that[of "a + n"] by simp
qed

lemma slice_not_Nil: "a < b \<Longrightarrow> a < length t \<Longrightarrow> slice t a b \<noteq> []"
  by (simp add: slice_def)

lemma parseNumber_literal:
  assumes "parseNumber t i = Some (v, e)"
  shows "isLiteralText v"
proof -
  let ?j = "skipWhile isDigit t i"
  let ?j' = "if charAt t ?j = Some CHR ''.'' \<and> testOpt isDigit (charAt t (?j + 1))
             then skipWhile isDigit t (?j + 1) else ?j"
  from assms have d: "i < length t" "isDigit (t ! i)" and v: "v = slice t i ?j'"
    by (auto simp: parseNumber_def Let_def testOpt_def charAt_def split: if_splits option.splits)
  have ij: "i < ?j" using d by (rule skipWhile_gt)
  have jj: "?j \<le> ?j'" using skipWhile_ge[of "?j + 1" isDigit t] by auto
  have ne: "v \<noteq> []" unfolding v using ij jj d(1) by (intro slice_not_Nil) auto
  have "isDigit c \<or> c = CHR ''.''" if "c \<in> set v" for c
  proof -
    from that[unfolded v] obtain k where k: "i \<le> k" "k < ?j'" "k < length t" "c = t ! k"
      by (rule in_set_slice)
    show ?thesis
    proof (cases "k < ?j")
      case True
      with k(1) show ?thesis using skipWhile_holds[of i k isDigit t] k(4) by simp
    next
      case False
      with k(2) have dot: "charAt t ?j = Some CHR ''.''" and k2: "k < skipWhile isDigit t (?j + 1)"
        by (auto split: if_splits)
      show ?thesis
      proof (cases "k = ?j")
        case True
        with dot k(4) show ?thesis by (simp add: charAt_def split: if_splits)
      next
        case False
        with \<open>\<not> k < ?j\<close> have "?j + 1 \<le> k" by simp
        from skipWhile_holds[OF this k2] k(4) show ?thesis by simp
      qed
    qed
  qed
  with ne show ?thesis by (simp add: isLiteralText_def list_all_iff)
qed

lemma isDottedName_slice:
  assumes "a < length t" "a < skipWhile isIdentPart t a"
  shows "isDottedName (slice t a (skipWhile isIdentPart t a))"
proof -
  have "slice t a (skipWhile isIdentPart t a) \<noteq> []" using assms by (intro slice_not_Nil)
  moreover have "isIdentPart c" if "c \<in> set (slice t a (skipWhile isIdentPart t a))" for c
  proof -
    from that obtain k where "a \<le> k" "k < skipWhile isIdentPart t a" "c = t ! k"
      by (rule in_set_slice)
    then show ?thesis using skipWhile_holds[of a k isIdentPart t] by simp
  qed
  ultimately show ?thesis by (simp add: isDottedName_def list_all_iff)
qed

lemma isIdentStart_Part: "isIdentStart c \<Longrightarrow> isIdentPart c"
  by (auto simp: isIdentStart_def isIdentPart_def)

lemma qualifiedLoop_name: "isDottedName name \<Longrightarrow> isDottedName (fst (qualifiedLoop t name j))"
proof (induction t name j rule: qualifiedLoop.induct)
  case (1 t name j)
  let ?j0 = "skipWs t j"
  let ?j1 = "skipWs t (?j0 + 1)"
  let ?j2 = "skipWhile isIdentPart t ?j1"
  show ?case
  proof (cases "charAt t ?j0 = Some CHR ''.'' \<and> testOpt isIdentStart (charAt t ?j1)")
    case False
    with 1(2) show ?thesis by (subst qualifiedLoop.simps) (auto simp: Let_def)
  next
    case True
    then have s: "?j1 < length t" "isIdentStart (t ! ?j1)"
      by (auto simp: testOpt_def charAt_def split: if_splits option.splits)
    then have "?j1 < ?j2" by (intro skipWhile_gt isIdentStart_Part)
    with s(1) have "isDottedName (slice t ?j1 ?j2)" by (rule isDottedName_slice)
    with 1(2) have "isDottedName (name @ ''.'' @ slice t ?j1 ?j2)"
      by (simp add: isDottedName_def)
    from 1(1)[OF refl _ refl _ refl this] True
    have "isDottedName (fst (qualifiedLoop t (name @ ''.'' @ slice t ?j1 ?j2) ?j2))" by simp
    then show ?thesis using True by (subst qualifiedLoop.simps) (simp add: Let_def)
  qed
qed

lemma parseQualifiedIdent_name:
  assumes "parseQualifiedIdent t i = Some (name, e)"
  shows "isDottedName name"
proof -
  let ?j = "skipWhile isIdentPart t i"
  from assms have s: "i < length t" "isIdentStart (t ! i)"
    and n: "name = fst (qualifiedLoop t (slice t i ?j) ?j)"
    by (auto simp: parseQualifiedIdent_def Let_def testOpt_def charAt_def
             split: if_splits option.splits)
  from s have "i < ?j" by (intro skipWhile_gt isIdentStart_Part)
  with s(1) have "isDottedName (slice t i ?j)" by (rule isDottedName_slice)
  then show ?thesis unfolding n by (rule qualifiedLoop_name)
qed

lemma parser_wellFormed:
  "\<forall>e. parseExpression t0 = Some e \<longrightarrow> wellFormed e"
  "\<forall>e j. parseAdd t1 i1 = Some (e, j) \<longrightarrow> wellFormed e"
  "wellFormed l2 \<longrightarrow> (\<forall>e j. parseAddLoop t2 l2 i2 = Some (e, j) \<longrightarrow> wellFormed e)"
  "\<forall>e j. parseMul t3 i3 = Some (e, j) \<longrightarrow> wellFormed e"
  "wellFormed l4 \<longrightarrow> (\<forall>e j. parseMulLoop t4 l4 i4 = Some (e, j) \<longrightarrow> wellFormed e)"
  "\<forall>e j. parseUnary t5 i5 = Some (e, j) \<longrightarrow> wellFormed e"
  "\<forall>e j. parsePrimary t6 i6 = Some (e, j) \<longrightarrow> wellFormed e"
  "wellFormed x7 \<longrightarrow> wellFormed (fst (parsePostfix t7 x7 i7))"
proof (induction t0 and t1 i1 and t2 l2 i2 and t3 i3 and t4 l4 i4 and t5 i5 and t6 i6 and t7 x7 i7
    rule: parseExpression_parseAdd_parseAddLoop_parseMul_parseMulLoop_parseUnary_parsePrimary_parsePostfix.induct)
  case (1 t)
  then show ?case
    by (auto simp: parseExpression.simps[of t] split: if_splits option.splits)
next
  case (2 t i)
  show ?case
  proof (intro allI impI)
    fix e j assume r: "parseAdd t i = Some (e, j)"
    then obtain l k where m: "parseMul t i = Some (l, k)" and a: "parseAddLoop t l k = Some (e, j)"
      by (auto simp: parseAdd.simps[of t i] split: option.splits)
    from m 2(1) have "wellFormed l" by blast
    with 2(2)[OF m refl] a show "wellFormed e" by blast
  qed
next
  case (3 t left i0)
  let ?i = "skipWs t i0"
  show ?case
  proof (intro allI impI)
    fix e j assume w: "wellFormed left" and r: "parseAddLoop t left i0 = Some (e, j)"
    show "wellFormed e"
    proof (cases "addOp (charAt t ?i)")
      case None
      with r w show ?thesis by (simp add: parseAddLoop.simps[of t left i0] Let_def)
    next
      case (Some opp)
      obtain op u where opp: "opp = (op, u)" by (cases opp)
      from r Some opp obtain right k where
        m: "parseMul t (?i + 1) = Some (right, k)" and
        a: "parseAddLoop t (Binary op left right) k = Some (e, j)"
        by (auto simp: parseAddLoop.simps[of t left i0] Let_def split: option.splits)
      from 3(1)[OF refl Some opp[symmetric]] m have "wellFormed right" by blast
      with w have "wellFormed (Binary op left right)" by simp
      with 3(2)[OF refl Some opp[symmetric] m refl] a show ?thesis by blast
    qed
  qed
next
  case (4 t i)
  show ?case
  proof (intro allI impI)
    fix e j assume r: "parseMul t i = Some (e, j)"
    then obtain l k where m: "parseUnary t i = Some (l, k)" and a: "parseMulLoop t l k = Some (e, j)"
      by (auto simp: parseMul.simps[of t i] split: option.splits)
    from m 4(1) have "wellFormed l" by blast
    with 4(2)[OF m refl] a show "wellFormed e" by blast
  qed
next
  case (5 t left i0)
  let ?i = "skipWs t i0"
  show ?case
  proof (intro allI impI)
    fix e j assume w: "wellFormed left" and r: "parseMulLoop t left i0 = Some (e, j)"
    show "wellFormed e"
    proof (cases "mulOp (charAt t ?i)")
      case None
      with r w show ?thesis by (simp add: parseMulLoop.simps[of t left i0] Let_def)
    next
      case (Some op)
      from r Some obtain right k where
        m: "parseUnary t (?i + 1) = Some (right, k)" and
        a: "parseMulLoop t (Binary op left right) k = Some (e, j)"
        by (auto simp: parseMulLoop.simps[of t left i0] Let_def split: option.splits)
      from 5(1)[OF refl Some] m have "wellFormed right" by blast
      with w have "wellFormed (Binary op left right)" by simp
      with 5(2)[OF refl Some m refl] a show ?thesis by blast
    qed
  qed
next
  case (6 t i0)
  let ?i = "skipWs t i0"
  show ?case
  proof (intro allI impI)
    fix e j assume r: "parseUnary t i0 = Some (e, j)"
    show "wellFormed e"
    proof (cases "addOp (charAt t ?i)")
      case None
      with r have "parsePrimary t ?i = Some (e, j)"
        by (simp add: parseUnary.simps[of t i0] Let_def)
      with 6(1)[OF refl None] show ?thesis by blast
    next
      case (Some opp)
      obtain u op where opp: "opp = (u, op)" by (cases opp)
      from r Some opp obtain x where m: "parseUnary t (?i + 1) = Some (x, j)" and e: "e = Unary op x"
        by (auto simp: parseUnary.simps[of t i0] Let_def split: option.splits)
      from 6(2)[OF refl Some opp[symmetric]] m have "wellFormed x" by blast
      with e show ?thesis by simp
    qed
  qed
next
  case (7 t i0)
  let ?i = "skipWs t i0"
  let ?ctor = "(if startsWith t ''new'' ?i \<and> testOpt isWordChar (charAt t (?i + 3))
             then
               (case parseQualifiedIdent t (skipWs t (?i + 3)) of
                  None \<Rightarrow> None
                | Some (name, ctorEnd) \<Rightarrow>
                    let i1 = skipWs t ctorEnd;
                        close = (if charAt t i1 = Some CHR ''(''
                                 then findMatching t i1 (CHR ''('') (CHR '')'') else None)
                    in
                      (case close of
                         Some close \<Rightarrow>
                           Some (New (Ident name)
                                   (map (\<lambda>p. case parseExpression p of None \<Rightarrow> Raw p | Some e \<Rightarrow> e)
                                      (splitArgsText (slice t (i1 + 1) close))),
                                 close + 1)
                       | None \<Rightarrow> Some (Raw (slice t i1 ctorEnd), i1)))
             else None)"
  show ?case
  proof (intro allI impI)
    fix e j assume r: "parsePrimary t i0 = Some (e, j)"
    note r' = r[unfolded parsePrimary.simps[of t i0] Let_def]
    show "wellFormed e"
    proof (cases ?ctor)
      case (Some res)
      note Some' = Some[unfolded Let_def]
      from r' Some' have res: "res = (e, j)" by simp
      from Some[unfolded res] have nw: "startsWith t ''new'' ?i \<and> testOpt isWordChar (charAt t (?i + 3))"
        by (auto split: if_splits)
      from Some[unfolded res] obtain name ce where
        q: "parseQualifiedIdent t (skipWs t (?i + 3)) = Some (name, ce)"
        by (auto simp: Let_def split: if_splits option.splits)
      let ?i1 = "skipWs t ce"
      let ?close = "if charAt t ?i1 = Some CHR ''('' then findMatching t ?i1 (CHR ''('') (CHR '')'') else None"
      show ?thesis
      proof (cases ?close)
        case None
        with Some[unfolded res] q nw have "e = Raw (slice t ?i1 ce)"
          by (auto simp: Let_def split: if_splits option.splits)
        then show ?thesis by simp
      next
        case (Some c)
        with \<open>?ctor = Some res\<close>[unfolded res] q nw
        have e: "e = New (Ident name)
                  (map (\<lambda>p. case parseExpression p of None \<Rightarrow> Raw p | Some e \<Rightarrow> e)
                     (splitArgsText (slice t (?i1 + 1) c)))"
          by (auto simp: Let_def split: if_splits option.splits)
        have "wellFormed (case parseExpression p of None \<Rightarrow> Raw p | Some e \<Rightarrow> e)"
          if "p \<in> set (splitArgsText (slice t (?i1 + 1) c))" for p
          using 7(1)[OF refl refl nw q refl refl refl Some that]
          by (cases "parseExpression p") auto
        moreover have "isDottedName name" using q by (rule parseQualifiedIdent_name)
        ultimately show ?thesis unfolding e by (simp add: list_all_iff)
      qed
    next
      case None
      note None' = None[unfolded Let_def]
      show ?thesis
      proof (cases "charAt t ?i = Some CHR ''('' \<or> charAt t ?i = Some CHR ''{''")
        case True
        from r' None' True obtain x k where
          a: "parseAdd t (?i + 1) = Some (x, k)" and
          e: "e = Group (if charAt t ?i = Some CHR ''('' then Paren else Brace) x"
          by (auto simp: Let_def split: option.splits if_splits)
        from 7(2)[OF refl refl refl None True] a have "wellFormed x" by blast
        then show ?thesis unfolding e by simp
      next
        case False
        show ?thesis
        proof (cases "parseNumber t ?i")
          case (Some ve)
          obtain v y where ve: "ve = (v, y)" by (cases ve)
          from r' None' False Some ve have "e = Number v"
            by (auto simp: Let_def)
          moreover from Some ve have "isLiteralText v" by (auto dest: parseNumber_literal)
          ultimately show ?thesis by simp
        next
          case n: None
          from r' None' False n obtain name y where
            q: "parseQualifiedIdent t ?i = Some (name, y)" and
            pf: "parsePostfix t (Ident name) y = (e, j)"
            by (auto simp: Let_def split: option.splits)
          have "wellFormed (Ident name)" using q by (simp add: parseQualifiedIdent_name)
          with 7(3)[OF refl refl refl None False n q refl] pf show ?thesis by simp
        qed
      qed
    qed
  qed
next
  case (8 t expr i0)
  let ?i = "skipWs t i0"
  note ps = parsePostfix.simps[of t expr i0, unfolded Let_def]
  show ?case
  proof
    assume w: "wellFormed expr"
    show "wellFormed (fst (parsePostfix t expr i0))"
    proof (cases "charAt t ?i = Some CHR ''.''")
      case True
      show ?thesis
      proof (cases "parseQualifiedIdent t (skipWs t (?i + 1))")
        case None
        with True w show ?thesis by (simp add: ps)
      next
        case (Some ne)
        obtain name y where ne: "ne = (name, y)" by (cases ne)
        from 8(1)[OF refl refl True Some[unfolded ne] refl] w
        have "wellFormed (fst (parsePostfix t (Member expr name) y))" by simp
        then show ?thesis using True Some ne by (simp add: ps)
      qed
    next
      case notDot: False
      show ?thesis
      proof (cases "charAt t ?i = Some CHR ''[''")
        case True
        show ?thesis
        proof (cases "findMatching t ?i CHR ''['' CHR '']''")
          case None
          with True notDot w show ?thesis by (simp add: ps)
        next
          case (Some c)
          let ?inside = "trim (slice t (?i + 1) c)"
          let ?idx = "case parseExpression ?inside of None \<Rightarrow> Raw ?inside | Some e \<Rightarrow> e"
          have "wellFormed ?idx"
            using 8(2)[OF refl refl notDot True Some refl]
            by (cases "parseExpression ?inside") auto
          with w 8(3)[OF refl refl notDot True Some refl refl]
          have "wellFormed (fst (parsePostfix t (Index expr ?idx) (c + 1)))" by simp
          then show ?thesis using True notDot Some by (simp add: ps)
        qed
      next
        case notBr: False
        show ?thesis
        proof (cases "charAt t ?i = Some CHR ''(''")
          case True
          show ?thesis
          proof (cases "findMatching t ?i CHR ''('' CHR '')''")
            case None
            with True notDot notBr w show ?thesis by (simp add: ps)
          next
            case (Some c)
            let ?args = "map (\<lambda>p. case parseExpression p of None \<Rightarrow> Raw p | Some e \<Rightarrow> e)
                   (splitArgsText (slice t (?i + 1) c))"
            have "wellFormed (case parseExpression p of None \<Rightarrow> Raw p | Some e \<Rightarrow> e)"
              if "p \<in> set (splitArgsText (slice t (?i + 1) c))" for p
              using 8(4)[OF refl refl notDot notBr True Some that]
              by (cases "parseExpression p") auto
            then have "list_all wellFormed ?args" by (simp add: list_all_iff)
            with w 8(5)[OF refl refl notDot notBr True Some refl]
            have "wellFormed (fst (parsePostfix t (Call expr ?args) (c + 1)))" by simp
            then show ?thesis using True notDot notBr Some by (simp add: ps)
          qed
        next
          case False
          with notDot notBr w show ?thesis by (simp add: ps)
        qed
      qed
    qed
  qed
qed

lemma parseExpressionAt_wellFormed:
  "parseExpressionAt t start = Some (e, stop) \<Longrightarrow> wellFormed e"
  using parser_wellFormed(2)[of t start]
  by (auto simp: parseExpressionAt_def split: option.splits if_splits)

lemma isDigit_caret: "\<not> isDigit CHR ''^''" by (simp add: isDigit_def)
lemma isIdentPart_caret: "\<not> isIdentPart CHR ''^''" by (simp add: isIdentPart_def)

lemma wellFormed_leafTexts:
  "isArithmeticTree e \<Longrightarrow> wellFormed e \<Longrightarrow> \<forall>s \<in> set (leafTexts e). s \<noteq> [] \<and> CHR ''^'' \<notin> set s"
  by (induction e rule: isArithmeticTree.induct)
     (auto simp: isLiteralText_def isDottedName_def list_all_iff isDigit_caret isIdentPart_caret)

section \<open>The claims\<close>

text \<open>
  C1. For every text that contains the character \<open>^\<close>, \<open>parseExpression\<close> (the
  entry point that parses a whole text as one expression) returns no match, whatever the
  rest of the text is.
\<close>

theorem parseExpression_rejects_caret:
  "CHR ''^'' \<in> set text \<Longrightarrow> parseExpression text = None"
  by (simp add: parseExpression.simps)

theorem parseExpression_rejects_caret_witness:
  "CHR ''^'' \<in> set ''a ^ b'' \<and> parseExpression ''a ^ b'' = None"
  using parseExpression_rejects_caret [of "''a ^ b''"] by simp

text \<open>
  C2. For every text \<open>s\<close>, \<open>maskJavaNonCode s\<close> has the length of \<open>s\<close>; every line
  break of \<open>s\<close> is unchanged at its offset; and every other character of the output is
  a blank or the character of \<open>s\<close> at that offset.
\<close>

theorem maskJavaNonCode_preserves:
  "length (maskJavaNonCode s) = length s \<and>
   (\<forall>i < length s.
      (isNewline (s ! i) \<longrightarrow> maskJavaNonCode s ! i = s ! i) \<and>
      (maskJavaNonCode s ! i = blank \<or> maskJavaNonCode s ! i = s ! i))"
  using maskFrom_pointwise [of s normal False]
  by (simp add: maskJavaNonCode_maskFrom list_all2_conv_all_nth maskedAs_def)

theorem maskJavaNonCode_preserves_witness:
  "(4::nat) < length [CHR ''a'', CHR ''/'', CHR ''/'', CHR ''b'', CHR 0x0A, CHR ''c''] \<and>
   isNewline ([CHR ''a'', CHR ''/'', CHR ''/'', CHR ''b'', CHR 0x0A, CHR ''c''] ! 4) \<and>
   maskJavaNonCode [CHR ''a'', CHR ''/'', CHR ''/'', CHR ''b'', CHR 0x0A, CHR ''c''] ! 4 = CHR 0x0A \<and>
   length (maskJavaNonCode [CHR ''a'', CHR ''/'', CHR ''/'', CHR ''b'', CHR 0x0A, CHR ''c'']) = 6"
  using maskJavaNonCode_preserves [of "[CHR ''a'', CHR ''/'', CHR ''/'', CHR ''b'', CHR 0x0A, CHR ''c'']"]
  by (simp add: isNewline_def)

text \<open>
  C3. For every list of matches, \<open>pickLargestNonOverlapping\<close> returns matches of the
  input, each at most as often as it occurs there and with its range as it was (nothing is
  trimmed); no two kept ranges intersect; and every match that is dropped intersects a kept
  match that starts before it, or starts where it starts and does not end before it. For
  three matches with the ranges \<open>[0,10)\<close>, \<open>[2,6)\<close> and \<open>[12,20)\<close>, of any kind and
  given in any order, the result is the match of \<open>[0,10)\<close> followed by the match of
  \<open>[12,20)\<close>.
\<close>

theorem pickLargestNonOverlapping_keeps_disjoint_outer:
  "mset (pickLargestNonOverlapping ms) \<subseteq># mset ms \<and>
   (\<forall>i j. i < j \<and> j < length (pickLargestNonOverlapping ms) \<longrightarrow>
      intersection (rangeOf (pickLargestNonOverlapping ms ! i))
                   (rangeOf (pickLargestNonOverlapping ms ! j)) = None) \<and>
   (\<forall>m \<in> set ms. m \<notin> set (pickLargestNonOverlapping ms) \<longrightarrow>
      (\<exists>k \<in> set (pickLargestNonOverlapping ms).
         intersection (rangeOf k) (rangeOf m) \<noteq> None \<and>
         (isBefore (range_start (rangeOf k)) (range_start (rangeOf m)) \<or>
          (range_start (rangeOf k) = range_start (rangeOf m) \<and>
           \<not> isBefore (range_end (rangeOf k)) (range_end (rangeOf m)))))) \<and>
   (\<forall>x y z. rangeOf x = offsetRange 0 10 \<and> rangeOf y = offsetRange 2 6 \<and>
      rangeOf z = offsetRange 12 20 \<and> mset ms = {#x, y, z#} \<longrightarrow>
      pickLargestNonOverlapping ms = [x, z])"
proof (intro conjI)
  show "mset (pickLargestNonOverlapping ms) \<subseteq># mset ms"
    using pickLoop_mset[of "[]" "sortBy compareMatches ms"]
    by (simp add: pickLargestNonOverlapping_def)
next
  have "sorted_wrt (\<lambda>a b. intersection (rangeOf a) (rangeOf b) = None) (pickLargestNonOverlapping ms)"
    unfolding pickLargestNonOverlapping_def by (rule pickLoop_disjoint) simp
  then show "\<forall>i j. i < j \<and> j < length (pickLargestNonOverlapping ms) \<longrightarrow>
      intersection (rangeOf (pickLargestNonOverlapping ms ! i))
                   (rangeOf (pickLargestNonOverlapping ms ! j)) = None"
    by (auto simp: sorted_wrt_iff_nth_less)
next
  show "\<forall>m \<in> set ms. m \<notin> set (pickLargestNonOverlapping ms) \<longrightarrow>
      (\<exists>k \<in> set (pickLargestNonOverlapping ms).
         intersection (rangeOf k) (rangeOf m) \<noteq> None \<and>
         (isBefore (range_start (rangeOf k)) (range_start (rangeOf m)) \<or>
          (range_start (rangeOf k) = range_start (rangeOf m) \<and>
           \<not> isBefore (range_end (rangeOf k)) (range_end (rangeOf m)))))"
    using pickLoop_dropped[of "sortBy compareMatches ms" "[]"] sorted_sortBy[of ms]
    unfolding sortsBefore_positions[symmetric]
    by (auto simp: pickLargestNonOverlapping_def)
next
  show "\<forall>x y z. rangeOf x = offsetRange 0 10 \<and> rangeOf y = offsetRange 2 6 \<and>
      rangeOf z = offsetRange 12 20 \<and> mset ms = {#x, y, z#} \<longrightarrow>
      pickLargestNonOverlapping ms = [x, z]"
    using pickLargestNonOverlapping_three by blast
qed

theorem pickLargestNonOverlapping_keeps_disjoint_outer_witness:
  "pickLargestNonOverlapping
     [AnyDivision (offsetRange 2 6) ''3'' ''4'', AnyPow (offsetRange 12 20) ''u'' ''v'',
      AnyExpr (offsetRange 0 10) ''x'' ''y''] =
     [AnyExpr (offsetRange 0 10) ''x'' ''y'', AnyPow (offsetRange 12 20) ''u'' ''v''] \<and>
   AnyDivision (offsetRange 2 6) ''3'' ''4'' \<notin>
     set (pickLargestNonOverlapping
            [AnyDivision (offsetRange 2 6) ''3'' ''4'', AnyPow (offsetRange 12 20) ''u'' ''v'',
             AnyExpr (offsetRange 0 10) ''x'' ''y'']) \<and>
   (\<exists>k \<in> set (pickLargestNonOverlapping
            [AnyDivision (offsetRange 2 6) ''3'' ''4'', AnyPow (offsetRange 12 20) ''u'' ''v'',
             AnyExpr (offsetRange 0 10) ''x'' ''y'']).
      intersection (rangeOf k) (rangeOf (AnyDivision (offsetRange 2 6) ''3'' ''4'')) \<noteq> None)"
proof -
  let ?x = "AnyExpr (offsetRange 0 10) ''x'' ''y''"
  let ?y = "AnyDivision (offsetRange 2 6) ''3'' ''4''"
  let ?z = "AnyPow (offsetRange 12 20) ''u'' ''v''"
  let ?ms = "[?y, ?z, ?x]"
  note t = pickLargestNonOverlapping_keeps_disjoint_outer[of ?ms]
  have r: "rangeOf ?x = offsetRange 0 10 \<and> rangeOf ?y = offsetRange 2 6 \<and>
      rangeOf ?z = offsetRange 12 20 \<and> mset ?ms = {#?x, ?y, ?z#}"
    by simp
  have p: "pickLargestNonOverlapping ?ms = [?x, ?z]"
    using t r by blast
  have i: "?y \<in> set ?ms" by simp
  have n: "?y \<notin> set (pickLargestNonOverlapping ?ms)"
    unfolding p by simp
  from t i n have "\<exists>k \<in> set (pickLargestNonOverlapping ?ms).
      intersection (rangeOf k) (rangeOf ?y) \<noteq> None"
    by blast
  with p n show ?thesis by blast
qed

text \<open>
  C4. A loop whose update clause is not one of \<open>i++\<close>, \<open>++i\<close>, \<open>i += 1\<close>,
  \<open>i = i + 1\<close> is to yield no Loop-Summation match. The source tests the update
  expression without anchors, so an update clause that only contains one of the four forms
  passes: for \<open>for (int i = 0; i < n; i += 10) { sum += i; }\<close> the detector returns a
  match with upper bound \<open>n - 1\<close>. The descending loop of the claim yields no match.
\<close>

theorem findForLoopSummations_update_unanchored:
  "map (\<lambda>m. (sum_indexVar m, sum_lowerText m, sum_upperText m, sum_accumulatorText m, sum_termText m))
     (findForLoopSummations stepTenLoop (maskJavaNonCode stepTenLoop)) =
   [(''i'', ''0'', ''n - 1'', ''sum'', ''i'')] \<and>
   findForLoopSummations descendingLoop (maskJavaNonCode descendingLoop) = []"
  by code_simp

text \<open>
  C5. For \<open>for (int i = 0; i < n; i++) { sum += i * i; }\<close> the Loop-Summation
  detector returns one match, with index variable \<open>i\<close>, lower bound \<open>0\<close>, upper bound
  \<open>n - 1\<close>, accumulator \<open>sum\<close> and term \<open>i * i\<close>.
\<close>

theorem findForLoopSummations_squares:
  "map (\<lambda>m. (sum_indexVar m, sum_lowerText m, sum_upperText m, sum_accumulatorText m, sum_termText m))
     (findForLoopSummations squaresLoop (maskJavaNonCode squaresLoop)) =
   [(''i'', ''0'', ''n - 1'', ''sum'', ''i * i'')]"
  by code_simp

text \<open>
  C6. Every match that \<open>findExpressions\<close> returns has a tree that is not a bare
  \<open>Call\<close> or \<open>New\<close> node, a span of the masked text without \<open>^\<close>, and a tree for
  which \<open>exprContainsOperator\<close> holds, that is, one with a \<open>Binary\<close> node among its
  nodes.
\<close>

theorem findExpressions_matches:
  "m \<in> set (findExpressions text maskedText maxMatches) \<Longrightarrow>
     \<not> isCallOrNew (expr_expr m) \<and>
     CHR ''^'' \<notin> set (slice maskedText (fst (expr_range m)) (snd (expr_range m))) \<and>
     exprContainsOperator (expr_expr m) \<and>
     (\<exists>n \<in> set (nodes (expr_expr m)). isBinary n)"
proof -
  assume m: "m \<in> set (findExpressions text maskedText maxMatches)"
  have "\<forall>m \<in> set (findExpressionsLoop text maskedText maxMatches 0 []).
      \<not> isCallOrNew (expr_expr m) \<and>
      CHR ''^'' \<notin> set (slice maskedText (fst (expr_range m)) (snd (expr_range m))) \<and>
      exprContainsOperator (expr_expr m)"
    by (rule findExpressionsLoop_invariant) (simp_all add: exprStep_pushed)
  with m show ?thesis
    by (auto simp: findExpressions_def exprContainsOperator_nodes)
qed

theorem findExpressions_matches_witness:
  "\<lparr>expr_range = (4, 9), expr_exprText = ''a + b'',
     expr_expr = Binary Add (Ident ''a'') (Ident ''b''),
     expr_latex = ''a + b'', expr_inlineText = ''a+b''\<rparr>
     \<in> set (findExpressions ''x = a + b;'' (maskJavaNonCode ''x = a + b;'') 500) \<and>
   exprContainsOperator (Binary Add (Ident ''a'') (Ident ''b'')) \<and>
   CHR ''^'' \<notin> set (slice (maskJavaNonCode ''x = a + b;'') 4 9)"
proof -
  have h: "\<lparr>expr_range = (4, 9), expr_exprText = ''a + b'',
     expr_expr = Binary Add (Ident ''a'') (Ident ''b''),
     expr_latex = ''a + b'', expr_inlineText = ''a+b''\<rparr>
     \<in> set (findExpressions ''x = a + b;'' (maskJavaNonCode ''x = a + b;'') 500)"
    by code_simp
  from findExpressions_matches[OF h] h show ?thesis by simp
qed

text \<open>
  C7. Masking is idempotent: for every text \<open>s\<close>, masking \<open>maskJavaNonCode s\<close> again
  gives \<open>maskJavaNonCode s\<close>.
\<close>

theorem maskJavaNonCode_idempotent:
  "maskJavaNonCode (maskJavaNonCode s) = maskJavaNonCode s"
  by (simp add: maskJavaNonCode_maskFrom maskFrom_idem)

text \<open>
  C8. For the line \<open>auto x = 3/4*Math.pow(9,2)\<close> the Power-Call detector returns one
  match, with base text \<open>9\<close>, exponent text \<open>2\<close> and typeset output \<open>{9}^{2}\<close>.
\<close>

theorem findPowCalls_example:
  "map (\<lambda>m. (pow_baseText m, pow_expText m, pow_latex m))
     (findPowCalls powLine (maskJavaNonCode powLine)) =
   [(''9'', ''2'', ''{9}^{2}'')]"
  by code_simp

text \<open>
  C9. For every tree built purely from \<open>Number\<close>, \<open>Identifier\<close> and
  \<open>Binary\<close> nodes, be it a tree that \<open>parseExpression\<close> or
  \<open>parseExpressionAt\<close> returns or any other tree whose number nodes hold literal
  texts and whose identifier nodes hold dotted names, \<open>exprToInlineText\<close> and
  \<open>exprToLatex\<close> each give a non-empty text without \<open>^\<close>.
\<close>

theorem renderers_arithmetic_trees:
  assumes "isArithmeticTree e"
    and "wellFormed e \<or> (\<exists>text. parseExpression text = Some e) \<or>
         (\<exists>text start stop. parseExpressionAt text start = Some (e, stop))"
  shows "exprToInlineText e \<noteq> [] \<and> CHR ''^'' \<notin> set (exprToInlineText e) \<and>
         exprToLatex e \<noteq> [] \<and> CHR ''^'' \<notin> set (exprToLatex e)"
proof -
  from assms(2) have "wellFormed e"
    using parser_wellFormed(1) parseExpressionAt_wellFormed by blast
  with assms(1) have "\<forall>s \<in> set (leafTexts e). s \<noteq> [] \<and> CHR ''^'' \<notin> set s"
    by (rule wellFormed_leafTexts)
  with assms(1) show ?thesis
    using inline_arithmetic latex_arithmetic by blast
qed

theorem renderers_arithmetic_trees_witness:
  "parseExpression ''3/x*4'' =
     Some (Binary Mul (Binary Div (Number ''3'') (Ident ''x'')) (Number ''4'')) \<and>
   isArithmeticTree (Binary Mul (Binary Div (Number ''3'') (Ident ''x'')) (Number ''4'')) \<and>
   exprToInlineText (Binary Mul (Binary Div (Number ''3'') (Ident ''x'')) (Number ''4'')) \<noteq> [] \<and>
   CHR ''^'' \<notin> set (exprToInlineText (Binary Mul (Binary Div (Number ''3'') (Ident ''x'')) (Number ''4''))) \<and>
   exprToLatex (Binary Mul (Binary Div (Number ''3'') (Ident ''x'')) (Number ''4'')) \<noteq> [] \<and>
   CHR ''^'' \<notin> set (exprToLatex (Binary Mul (Binary Div (Number ''3'') (Ident ''x'')) (Number ''4'')))"
proof -
  let ?e = "Binary Mul (Binary Div (Number ''3'') (Ident ''x'')) (Number ''4'')"
  have p: "parseExpression ''3/x*4'' = Some ?e"
    by code_simp
  have a: "isArithmeticTree ?e"
    by simp
  from p have h: "wellFormed ?e \<or> (\<exists>text. parseExpression text = Some ?e) \<or>
      (\<exists>text start stop. parseExpressionAt text start = Some (?e, stop))"
    by blast
  from renderers_arithmetic_trees[OF a h] p a show ?thesis by blast
qed

text \<open>
  C10. The Power-Call detector does not check that a call has two arguments: for
  \<open>Math.pow(a, b, c)\<close>, alone or inside a statement, it returns a match whose base text
  is \<open>a\<close> and whose exponent text is the rest, \<open>b, c\<close>.
\<close>

theorem findPowCalls_three_arguments:
  "map (\<lambda>m. (pow_baseText m, pow_expText m))
     (findPowCalls powThreeArgs (maskJavaNonCode powThreeArgs)) =
   [(''a'', ''b, c'')] \<and>
   map (\<lambda>m. (pow_baseText m, pow_expText m))
     (findPowCalls powThreeArgsLine (maskJavaNonCode powThreeArgsLine)) =
   [(''a'', ''b, c'')]"
  by code_simp

end
